theory Spec2Isabelle
  imports Complex_Main "HOL-Library.Multiset"
begin

section \<open>The hierarchical k-means index of flann/algorithms/kmeans_index.h\<close>

text \<open>
  The index is a class template over a \<open>Distance\<close> functor with its \<open>ElementType\<close> and
  \<open>ResultType\<close>. The embedding follows the template: one type \<open>'d\<close> stands for
  \<open>ElementType\<close>, \<open>DistanceType\<close> and the \<open>double\<close> accumulators, and every operation
  the code performs on it (comparison, sum, product, division by a count, the value of a
  literal, the distance functor itself) is a field of the record \<open>collab\<close> below, next to
  the random source. A theorem stated for every \<open>collab\<close> therefore holds for IEEE
  arithmetic, where \<open>0/0\<close> is a NaN that compares false with everything, as well as for
  the exact arithmetic of \<open>exact_collab\<close>, which is used to evaluate concrete runs.
  A member \<open>m_\<close> of the class is written \<open>m_'\<close>, since a name of a term cannot end
  in an underscore. C \<open>int\<close> and \<open>size_t\<close> are modelled by \<open>int\<close> and \<open>nat\<close> without wrap-around: the
  counters of this file only reach \<open>2^31\<close> on datasets of that many points.
\<close>

subsection \<open>Outcomes of a call\<close>

datatype error =
    BranchingTooSmall      \<comment> \<open>FLANNException("Branching factor must be at least 2")\<close>
  | UnknownCentersInit     \<comment> \<open>FLANNException("Unknown algorithm for choosing initial centers.")\<close>
  | BadParamCast           \<comment> \<open>a parameter of the wrong type\<close>
  | NullPointer            \<comment> \<open>a read through a NULL node pointer\<close>
  | OutOfRange             \<comment> \<open>a read or write outside a vector or the dataset\<close>
  | DivisionByZero         \<comment> \<open>a division whose divisor is zero, where the arithmetic traps\<close>
  | Uninitialised          \<comment> \<open>a read of a member that was never written\<close>
  | AssertionFailed        \<comment> \<open>a failed \<open>assert\<close>\<close>

datatype 'a result = Ok 'a | Fault error | Diverge

definition rbind :: "'a result \<Rightarrow> ('a \<Rightarrow> 'b result) \<Rightarrow> 'b result" where
  "rbind m f = (case m of Ok x \<Rightarrow> f x | Fault e \<Rightarrow> Fault e | Diverge \<Rightarrow> Diverge)"

fun mapM :: "('a \<Rightarrow> 'b result) \<Rightarrow> 'a list \<Rightarrow> 'b list result" where
  "mapM f [] = Ok []"
| "mapM f (x # xs) = rbind (f x) (\<lambda>y. rbind (mapM f xs) (\<lambda>ys. Ok (y # ys)))"

subsection \<open>External collaborators\<close>

text \<open>
  The arithmetic of \<open>DistanceType\<close>, the distance functor (\<open>distance_'\<close>, called with two
  vectors and the number of coordinates) and the random source of \<open>flann/util/random.h\<close>,
  which is not part of the sources at hand. Modelled from the spec: \<open>rand_int n\<close> is an
  integer in \<open>[0, n)\<close>, \<open>rand_double x\<close> a value in \<open>[0, x)\<close>, and the unique-draw
  variant \<open>unique_random n\<close> yields the values its \<open>next()\<close> returns, in order, before
  it answers \<open>-1\<close>; each draw advances the state \<open>'r\<close> of the generator.
\<close>

record ('d, 'r) collab =
  distance_' :: "'d list \<Rightarrow> 'd list \<Rightarrow> nat \<Rightarrow> 'd"
  less_d :: "'d \<Rightarrow> 'd \<Rightarrow> bool"
  le_d :: "'d \<Rightarrow> 'd \<Rightarrow> bool"
  add_d :: "'d \<Rightarrow> 'd \<Rightarrow> 'd"
  sub_d :: "'d \<Rightarrow> 'd \<Rightarrow> 'd"
  mul_d :: "'d \<Rightarrow> 'd \<Rightarrow> 'd"
  div_d :: "'d \<Rightarrow> int \<Rightarrow> 'd result"
  lit_d :: "rat \<Rightarrow> 'd"
  rand_int :: "int \<Rightarrow> 'r \<Rightarrow> int \<times> 'r"
  rand_double :: "'d \<Rightarrow> 'r \<Rightarrow> 'd \<times> 'r"
  unique_random :: "int \<Rightarrow> 'r \<Rightarrow> int list \<times> 'r"

text \<open>\<open>a > b\<close> of the source is \<open>b < a\<close>; \<open>std::min(a, b)\<close> is \<open>(b < a) ? b : a\<close>.\<close>

definition min_d :: "('d, 'r) collab \<Rightarrow> 'd \<Rightarrow> 'd \<Rightarrow> 'd" where
  "min_d E a b = (if less_d E b a then b else a)"

subsection \<open>Parameters and the index object\<close>

datatype flann_centers_init_t =
  FLANN_CENTERS_RANDOM | FLANN_CENTERS_GONZALES | FLANN_CENTERS_KMEANSPP | FLANN_CENTERS_OTHER int

datatype param_value = PInt int | PFloat rat | PBool bool | PCenters flann_centers_init_t

type_synonym IndexParams = "string \<rightharpoonup> param_value"

text \<open>
  Modelled from the spec: \<open>get_param\<close> of \<open>flann/util/params.h\<close>, absent from the sources
  at hand, returns the value stored under the name, or the given default when the name is
  absent; the stored value must have the requested type.
\<close>

definition get_param_int :: "IndexParams \<Rightarrow> string \<Rightarrow> int \<Rightarrow> int result" where
  "get_param_int params name dflt =
     (case params name of None \<Rightarrow> Ok dflt | Some (PInt v) \<Rightarrow> Ok v | Some _ \<Rightarrow> Fault BadParamCast)"

definition get_param_bool :: "IndexParams \<Rightarrow> string \<Rightarrow> bool \<Rightarrow> bool result" where
  "get_param_bool params name dflt =
     (case params name of None \<Rightarrow> Ok dflt | Some (PBool v) \<Rightarrow> Ok v | Some _ \<Rightarrow> Fault BadParamCast)"

definition get_param_centers ::
  "IndexParams \<Rightarrow> string \<Rightarrow> flann_centers_init_t \<Rightarrow> flann_centers_init_t result" where
  "get_param_centers params name dflt =
     (case params name of None \<Rightarrow> Ok dflt | Some (PCenters v) \<Rightarrow> Ok v | Some _ \<Rightarrow> Fault BadParamCast)"

text \<open>
  \<open>KMeansIndexParams(branching, iterations, centers_init, cb_index)\<close>, lines 56-71. The
  entry \<open>algorithm\<close>, a tag that the index never reads, is left out.
\<close>

definition KMeansIndexParams :: "int \<Rightarrow> int \<Rightarrow> flann_centers_init_t \<Rightarrow> rat \<Rightarrow> IndexParams" where
  "KMeansIndexParams branching iterations centers_init cb_index =
     [''branching'' \<mapsto> PInt branching,
      ''iterations'' \<mapsto> PInt iterations,
      ''centers_init'' \<mapsto> PCenters centers_init,
      ''cb_index'' \<mapsto> PFloat cb_index]"

text \<open>The node of the tree, lines 530-560. \<open>size\<close> is named \<open>node_size\<close> here.\<close>

datatype 'd KMeansNode =
  KMeansNode (pivot: "'d list") (radius: 'd) (variance: 'd) (node_size: int)
             (childs: "'d KMeansNode list") (indices: "int list") (level: int)

text \<open>
  The members of the index, lines 1106-1175. \<open>root_'\<close> is a pointer that is NULL until
  the index is built; \<open>size_at_build_'\<close> is not written by the constructor. \<open>rng_'\<close> is
  the state of the process-wide random generator.
\<close>

record ('d, 'r) KMeansIndex =
  branching_' :: int
  iterations_' :: int
  centers_init_' :: flann_centers_init_t
  cb_index_' :: 'd
  dataset_' :: "'d list list"
  ownDataset_' :: bool
  size_' :: nat
  size_at_build_' :: "nat option"
  veclen_' :: nat
  root_' :: "'d KMeansNode option"
  indices_' :: "int list"
  rng_' :: 'r

definition INT_MAX :: int where
  "INT_MAX = 2147483647"

text \<open>
  The constructor, lines 274-312. The dataset is a matrix of \<open>rows\<close> rows and \<open>cols\<close>
  columns; copying it (\<open>copy_dataset\<close>) does not change its contents.
\<close>

definition KMeansIndex_ctor ::
  "('d, 'r) collab \<Rightarrow> 'd list list \<Rightarrow> nat \<Rightarrow> IndexParams \<Rightarrow> 'r \<Rightarrow> ('d, 'r) KMeansIndex result" where
  "KMeansIndex_ctor E inputData cols params rng =
     rbind (get_param_int params ''branching'' 32) (\<lambda>branching.
     rbind (get_param_int params ''iterations'' 11) (\<lambda>iterations.
     rbind (get_param_centers params ''centers_init'' FLANN_CENTERS_RANDOM) (\<lambda>centers_init.
       if centers_init \<noteq> FLANN_CENTERS_RANDOM \<and> centers_init \<noteq> FLANN_CENTERS_GONZALES
          \<and> centers_init \<noteq> FLANN_CENTERS_KMEANSPP
       then Fault UnknownCentersInit
       else
     rbind (get_param_bool params ''copy_dataset'' False) (\<lambda>own.
       Ok \<lparr> branching_' = branching,
            iterations_' = (if iterations < 0 then INT_MAX else iterations),
            centers_init_' = centers_init,
            cb_index_' = lit_d E (2 / 5),
            dataset_' = inputData,
            ownDataset_' = own,
            size_' = length inputData,
            size_at_build_' = None,
            veclen_' = cols,
            root_' = None,
            indices_' = [],
            rng_' = rng \<rparr>))))"

text \<open>\<open>set_cb_index\<close>, lines 352-355.\<close>

definition set_cb_index :: "('d, 'r) KMeansIndex \<Rightarrow> 'd \<Rightarrow> ('d, 'r) KMeansIndex" where
  "set_cb_index ix index = ix \<lparr> cb_index_' := index \<rparr>"

subsection \<open>Vectors and rows of the dataset\<close>

text \<open>
  \<open>dataset_'[i]\<close> is row \<open>i\<close> of the matrix, a vector of \<open>veclen_'\<close> coordinates. The
  matrix does not check its index: a function of the model that reads the rows of a list
  of ids first tests that every id names a row and is \<open>Fault OutOfRange\<close> otherwise.
\<close>

definition row_ok :: "'d list list \<Rightarrow> int \<Rightarrow> bool" where
  "row_ok ds i = (0 \<le> i \<and> nat i < length ds)"

definition row :: "'d list list \<Rightarrow> int \<Rightarrow> 'd list" where
  "row ds i = ds ! nat i"

definition vec_zero :: "('d, 'r) collab \<Rightarrow> nat \<Rightarrow> 'd list" where
  "vec_zero E vl = replicate vl (lit_d E 0)"

definition vec_add :: "('d, 'r) collab \<Rightarrow> nat \<Rightarrow> 'd list \<Rightarrow> 'd list \<Rightarrow> 'd list" where
  "vec_add E vl a b = map (\<lambda>k. add_d E (a ! k) (b ! k)) [0..<vl]"

definition swap_at :: "'a list \<Rightarrow> nat \<Rightarrow> nat \<Rightarrow> 'a list" where
  "swap_at xs i j = xs[i := xs ! j, j := xs ! i]"

subsection \<open>Choosing the initial centers, lines 109-256\<close>

text \<open>
  \<open>chooseCentersRandom\<close>: \<open>draws\<close> are the values \<open>r.next()\<close> still has to return and
  \<open>centers\<close> the ids accepted so far (\<open>index\<close> is their number). A draw whose point is
  closer than \<open>1e-16\<close> to an accepted center is rejected; when the draws run out,
  \<open>r.next()\<close> is negative and the function returns what it has.
\<close>

fun random_picks ::
  "('d, 'r) collab \<Rightarrow> 'd list list \<Rightarrow> nat \<Rightarrow> int list \<Rightarrow> int \<Rightarrow> int list \<Rightarrow> int list \<Rightarrow> int list" where
  "random_picks E ds vl idx k [] centers = centers"
| "random_picks E ds vl idx k (rnd # draws) centers =
     (if k \<le> int (length centers) then centers
      else
        let c = idx ! nat rnd in
        if list_ex (\<lambda>cj. less_d E (distance_' E (row ds c) (row ds cj) vl) (lit_d E (1 / 10 ^ 16))) centers
        then random_picks E ds vl idx k draws centers
        else random_picks E ds vl idx k draws (centers @ [c]))"

definition chooseCentersRandom ::
  "('d, 'r) collab \<Rightarrow> ('d, 'r) KMeansIndex \<Rightarrow> int \<Rightarrow> int list \<Rightarrow> 'r \<Rightarrow> (int list \<times> 'r) result" where
  "chooseCentersRandom E ix k idx rng =
     (let n = int (length idx);
          (draws, rng') = unique_random E n rng
      in if \<not> list_all (\<lambda>r. 0 \<le> r \<and> r < n) draws \<or> \<not> list_all (row_ok (dataset_' ix)) idx
         then Fault OutOfRange
         else Ok (random_picks E (dataset_' ix) (veclen_' ix) idx k draws [], rng'))"

text \<open>
  \<open>chooseCentersGonzales\<close>: the distance of a point to the nearest of the centers chosen
  so far, the candidate that maximises it (\<open>best_index\<close> stays \<open>-1\<close> when no distance
  is above zero), and the loop over \<open>index\<close>.
\<close>

definition gonzales_dist ::
  "('d, 'r) collab \<Rightarrow> 'd list list \<Rightarrow> nat \<Rightarrow> int list \<Rightarrow> 'd list \<Rightarrow> 'd" where
  "gonzales_dist E ds vl centers x =
     foldl (\<lambda>dist c. let tmp_dist = distance_' E (row ds c) x vl
                      in if less_d E tmp_dist dist then tmp_dist else dist)
           (distance_' E (row ds (hd centers)) x vl) (tl centers)"

definition gonzales_best ::
  "('d, 'r) collab \<Rightarrow> 'd list list \<Rightarrow> nat \<Rightarrow> int list \<Rightarrow> int list \<Rightarrow> int \<times> 'd" where
  "gonzales_best E ds vl idx centers =
     foldl (\<lambda>(best_index, best_val) j.
              let dist = gonzales_dist E ds vl centers (row ds (idx ! j))
              in if less_d E best_val dist then (int j, dist) else (best_index, best_val))
           (- 1, lit_d E 0) [0..<length idx]"

function gonzales_loop ::
  "('d, 'r) collab \<Rightarrow> 'd list list \<Rightarrow> nat \<Rightarrow> int list \<Rightarrow> int \<Rightarrow> int list \<Rightarrow> int list" where
  "gonzales_loop E ds vl idx k centers =
     (if int (length centers) < k
      then
        let best_index = fst (gonzales_best E ds vl idx centers) in
        if best_index \<noteq> - 1
        then gonzales_loop E ds vl idx k (centers @ [idx ! nat best_index])
        else centers
      else centers)"
  by pat_completeness auto
termination
  by (relation "measure (\<lambda>(E, ds, vl, idx, k, centers). nat k - length centers)") auto

definition chooseCentersGonzales ::
  "('d, 'r) collab \<Rightarrow> ('d, 'r) KMeansIndex \<Rightarrow> int \<Rightarrow> int list \<Rightarrow> 'r \<Rightarrow> (int list \<times> 'r) result" where
  "chooseCentersGonzales E ix k idx rng =
     (let n = int (length idx);
          (rnd, rng') = rand_int E n rng
      in if \<not> (0 \<le> rnd \<and> rnd < n) then Fault AssertionFailed
         else if \<not> list_all (row_ok (dataset_' ix)) idx then Fault OutOfRange
         else Ok (gonzales_loop E (dataset_' ix) (veclen_' ix) idx k [idx ! nat rnd], rng'))"

text \<open>
  \<open>chooseCentersKMeanspp\<close>: the walk over \<open>closestDistSq\<close> that turns \<open>randVal\<close> into
  a position, and the loop over \<open>centerCount\<close> with its single local trial.
\<close>

function kmeanspp_select :: "('d, 'r) collab \<Rightarrow> 'd list \<Rightarrow> 'd \<Rightarrow> nat \<Rightarrow> nat" where
  "kmeanspp_select E closestDistSq randVal index =
     (if int index < int (length closestDistSq) - 1
      then if le_d E randVal (closestDistSq ! index) then index
           else kmeanspp_select E closestDistSq (sub_d E randVal (closestDistSq ! index)) (Suc index)
      else index)"
  by pat_completeness auto
termination
  by (relation "measure (\<lambda>(E, closestDistSq, randVal, index). length closestDistSq - index)") auto

definition kmeanspp_trial ::
  "('d, 'r) collab \<Rightarrow> 'd list list \<Rightarrow> nat \<Rightarrow> int list \<Rightarrow> 'd list \<Rightarrow> 'd \<Rightarrow> 'r
     \<Rightarrow> ('d \<times> int) \<times> 'r" where
  "kmeanspp_trial E ds vl idx closestDistSq currentPot rng =
     (let (randVal, rng1) = rand_double E currentPot rng;
          index = kmeanspp_select E closestDistSq randVal 0;
          newPot = foldl (\<lambda>p i. add_d E p (min_d E (distance_' E (row ds (idx ! i)) (row ds (idx ! index)) vl)
                                                 (closestDistSq ! i)))
                         (lit_d E 0) [0..<length idx];
          better = (less_d E (lit_d E (- 1)) (lit_d E 0) \<or> less_d E newPot (lit_d E (- 1)))
      in ((if better then newPot else lit_d E (- 1), if better then int index else - 1), rng1))"

function kmeanspp_loop ::
  "('d, 'r) collab \<Rightarrow> 'd list list \<Rightarrow> nat \<Rightarrow> int list \<Rightarrow> int \<Rightarrow> int list \<Rightarrow> 'd list \<Rightarrow> 'd \<Rightarrow> 'r
     \<Rightarrow> (int list \<times> 'r) result" where
  "kmeanspp_loop E ds vl idx k centers closestDistSq currentPot rng =
     (if int (length centers) < k
      then
        (case kmeanspp_trial E ds vl idx closestDistSq currentPot rng of
           ((bestNewPot, bestNewIndex), rng1) \<Rightarrow>
             if \<not> (0 \<le> bestNewIndex \<and> bestNewIndex < int (length idx)) then Fault OutOfRange
             else
               kmeanspp_loop E ds vl idx k (centers @ [idx ! nat bestNewIndex])
                 (map (\<lambda>i. min_d E (distance_' E (row ds (idx ! i)) (row ds (idx ! nat bestNewIndex)) vl)
                                  (closestDistSq ! i)) [0..<length idx])
                 bestNewPot rng1)
      else Ok (centers, rng))"
  by pat_completeness auto
termination
  by (relation "measure (\<lambda>(E, ds, vl, idx, k, centers, closestDistSq, currentPot, rng).
                           nat k - length centers)") auto

definition chooseCentersKMeanspp ::
  "('d, 'r) collab \<Rightarrow> ('d, 'r) KMeansIndex \<Rightarrow> int \<Rightarrow> int list \<Rightarrow> 'r \<Rightarrow> (int list \<times> 'r) result" where
  "chooseCentersKMeanspp E ix k idx rng =
     (let n = int (length idx);
          ds = dataset_' ix;
          (index, rng') = rand_int E n rng
      in if \<not> (0 \<le> index \<and> index < n) then Fault AssertionFailed
         else if \<not> list_all (row_ok ds) idx then Fault OutOfRange
         else
           let closestDistSq = map (\<lambda>i. distance_' E (row ds (idx ! i)) (row ds (idx ! nat index)) (veclen_' ix))
                                   [0..<length idx];
               currentPot = foldl (add_d E) (lit_d E 0) closestDistSq
           in kmeanspp_loop E ds (veclen_' ix) idx k [idx ! nat index] closestDistSq currentPot rng')"

text \<open>
  The member function pointer \<open>chooseCenters\<close>, set by the constructor from
  \<open>centers_init_'\<close> (lines 290-301) and called at line 695.
\<close>

definition chooseCenters ::
  "('d, 'r) collab \<Rightarrow> ('d, 'r) KMeansIndex \<Rightarrow> int \<Rightarrow> int list \<Rightarrow> 'r \<Rightarrow> (int list \<times> 'r) result" where
  "chooseCenters E ix k idx rng =
     (case centers_init_' ix of
        FLANN_CENTERS_RANDOM \<Rightarrow> chooseCentersRandom E ix k idx rng
      | FLANN_CENTERS_GONZALES \<Rightarrow> chooseCentersGonzales E ix k idx rng
      | FLANN_CENTERS_KMEANSPP \<Rightarrow> chooseCentersKMeanspp E ix k idx rng
      | FLANN_CENTERS_OTHER v \<Rightarrow> Fault Uninitialised)"

subsection \<open>Node statistics, lines 635-667\<close>

text \<open>
  The mean of the member points becomes the pivot, the largest distance to it the radius
  and the mean distance the variance. Both quotients divide by \<open>indices.size()\<close>.
\<close>

definition computeNodeStatistics ::
  "('d, 'r) collab \<Rightarrow> ('d, 'r) KMeansIndex \<Rightarrow> 'd KMeansNode \<Rightarrow> int list \<Rightarrow> 'd KMeansNode result" where
  "computeNodeStatistics E ix node idx =
     (if \<not> list_all (row_ok (dataset_' ix)) idx then Fault OutOfRange
      else
        let n = int (length idx);
            total = foldl (\<lambda>mean i. vec_add E (veclen_' ix) mean (row (dataset_' ix) i))
                         (vec_zero E (veclen_' ix)) idx
        in rbind (mapM (\<lambda>m. div_d E m n) total) (\<lambda>mean.
             let rv = foldl (\<lambda>(radius, variance) i.
                               let dist = distance_' E mean (row (dataset_' ix) i) (veclen_' ix)
                               in (if less_d E radius dist then dist else radius, add_d E variance dist))
                            (lit_d E 0, lit_d E 0) idx
             in rbind (div_d E (snd rv) n) (\<lambda>variance.
                  Ok (KMeansNode mean (fst rv) variance (node_size node) (childs node) (indices node)
                                 (level node)))))"

subsection \<open>Clustering, lines 681-846\<close>

text \<open>
  The working arrays of one clustering step: \<open>dcenters\<close>, \<open>radiuses\<close>, \<open>count\<close> and
  \<open>belongs_to\<close>, with the loop variables \<open>converged\<close> and \<open>iteration\<close>.
\<close>

record 'd kmeans_state =
  converged :: bool
  iteration :: int
  dcenters :: "'d list list"
  radiuses :: "'d list"
  count :: "int list"
  belongs_to :: "nat list"

text \<open>
  The nearest of the \<open>branching\<close> centers of a point, lines 722-730 and 764-772: a later
  center wins only when it is strictly closer.
\<close>

definition nearest_center ::
  "('d, 'r) collab \<Rightarrow> nat \<Rightarrow> 'd list \<Rightarrow> 'd list list \<Rightarrow> nat \<Rightarrow> nat \<times> 'd" where
  "nearest_center E vl x dc B =
     foldl (\<lambda>(best, sq_dist) j.
              let new_sq_dist = distance_' E x (dc ! j) vl
              in if less_d E new_sq_dist sq_dist then (j, new_sq_dist) else (best, sq_dist))
           (0, distance_' E x (dc ! 0) vl) [1..<B]"

text \<open>The first assignment of the points to the centers, lines 715-735.\<close>

definition assign_step ::
  "('d, 'r) collab \<Rightarrow> 'd list list \<Rightarrow> nat \<Rightarrow> int list \<Rightarrow> 'd list list \<Rightarrow> nat
     \<Rightarrow> nat list \<times> 'd list \<times> int list \<Rightarrow> nat \<Rightarrow> nat list \<times> 'd list \<times> int list" where
  "assign_step E ds vl idx dc B s i =
     (case s of (bt, rad, cnt) \<Rightarrow>
        (case nearest_center E vl (row ds (idx ! i)) dc B of (c, sq_dist) \<Rightarrow>
           (bt[i := c],
            (if less_d E (rad ! c) sq_dist then rad[c := sq_dist] else rad),
            cnt[c := cnt ! c + 1])))"

definition assign_points ::
  "('d, 'r) collab \<Rightarrow> 'd list list \<Rightarrow> nat \<Rightarrow> int list \<Rightarrow> 'd list list \<Rightarrow> nat \<Rightarrow> 'd kmeans_state" where
  "assign_points E ds vl idx dc B =
     (case foldl (assign_step E ds vl idx dc B)
                 (replicate (length idx) 0, replicate B (lit_d E 0), replicate B 0)
                 [0..<length idx]
      of (bt, rad, cnt) \<Rightarrow>
        \<lparr> converged = False, iteration = 0, dcenters = dc, radiuses = rad, count = cnt,
          belongs_to = bt \<rparr>)"

text \<open>
  One pass of the refinement loop, lines 743-804. First the new centers: the sums of the
  members of each cluster, each divided by \<open>count[i]\<close>.
\<close>

definition center_sums ::
  "('d, 'r) collab \<Rightarrow> 'd list list \<Rightarrow> nat \<Rightarrow> int list \<Rightarrow> nat \<Rightarrow> nat list \<Rightarrow> 'd list list" where
  "center_sums E ds vl idx B bt =
     foldl (\<lambda>dc i. dc[bt ! i := vec_add E vl (dc ! (bt ! i)) (row ds (idx ! i))])
           (replicate B (vec_zero E vl)) [0..<length idx]"

definition new_centers ::
  "('d, 'r) collab \<Rightarrow> 'd list list \<Rightarrow> nat \<Rightarrow> int list \<Rightarrow> nat \<Rightarrow> nat list \<Rightarrow> int list
     \<Rightarrow> 'd list list result" where
  "new_centers E ds vl idx B bt cnt =
     mapM (\<lambda>i. mapM (\<lambda>x. div_d E x (cnt ! i)) (center_sums E ds vl idx B bt ! i)) [0..<B]"

text \<open>The points are assigned again, lines 763-783.\<close>

definition reassign_step ::
  "('d, 'r) collab \<Rightarrow> 'd list list \<Rightarrow> nat \<Rightarrow> int list \<Rightarrow> 'd list list \<Rightarrow> nat
     \<Rightarrow> nat list \<times> 'd list \<times> int list \<times> bool \<Rightarrow> nat \<Rightarrow> nat list \<times> 'd list \<times> int list \<times> bool" where
  "reassign_step E ds vl idx dc B s i =
     (case s of (bt, rad, cnt, conv) \<Rightarrow>
        (case nearest_center E vl (row ds (idx ! i)) dc B of (new_centroid, sq_dist) \<Rightarrow>
           (let rad' = (if less_d E (rad ! new_centroid) sq_dist then rad[new_centroid := sq_dist] else rad)
            in if new_centroid \<noteq> bt ! i
               then (let cnt1 = cnt[bt ! i := cnt ! (bt ! i) - 1]
                     in (bt[i := new_centroid], rad', cnt1[new_centroid := cnt1 ! new_centroid + 1], False))
               else (bt, rad', cnt, conv))))"

text \<open>
  An empty cluster takes a point of another, lines 785-804. The search for the donor,
  \<open>while (count[j]<=1) j = (j+1)%branching\<close>, looks at every cluster again after
  \<open>branching\<close> steps: when none of them holds two points it never ends.
\<close>

fun find_donor :: "int list \<Rightarrow> nat \<Rightarrow> nat \<Rightarrow> nat \<Rightarrow> nat result" where
  "find_donor cnt B j 0 = Diverge"
| "find_donor cnt B j (Suc steps) =
     (if cnt ! j \<le> 1 then find_donor cnt B ((j + 1) mod B) steps else Ok j)"

definition recover_cluster ::
  "nat \<Rightarrow> nat list \<times> int list \<times> bool \<Rightarrow> nat \<Rightarrow> (nat list \<times> int list \<times> bool) result" where
  "recover_cluster B s i =
     (case s of (bt, cnt, conv) \<Rightarrow>
        if cnt ! i = 0
        then rbind (find_donor cnt B ((i + 1) mod B) B) (\<lambda>j.
               case find (\<lambda>k. bt ! k = j) [0..<length bt] of
                 Some k \<Rightarrow> (let cnt1 = cnt[j := cnt ! j - 1]
                            in Ok (bt[k := i], cnt1[i := cnt1 ! i + 1], False))
               | None \<Rightarrow> Ok (bt, cnt, False))
        else Ok (bt, cnt, conv))"

fun recover_all ::
  "nat \<Rightarrow> nat list \<Rightarrow> nat list \<times> int list \<times> bool \<Rightarrow> (nat list \<times> int list \<times> bool) result" where
  "recover_all B [] s = Ok s"
| "recover_all B (i # is) s = rbind (recover_cluster B s i) (recover_all B is)"

definition kmeans_iteration ::
  "('d, 'r) collab \<Rightarrow> 'd list list \<Rightarrow> nat \<Rightarrow> int list \<Rightarrow> nat \<Rightarrow> 'd kmeans_state \<Rightarrow> 'd kmeans_state result" where
  "kmeans_iteration E ds vl idx B st =
     rbind (new_centers E ds vl idx B (belongs_to st) (count st)) (\<lambda>dc.
       case foldl (reassign_step E ds vl idx dc B)
                  (belongs_to st, replicate B (lit_d E 0), count st, True) [0..<length idx]
       of (bt, rad, cnt, conv) \<Rightarrow>
         rbind (recover_all B [0..<B] (bt, cnt, conv)) (\<lambda>(bt', cnt', conv').
           Ok \<lparr> converged = conv', iteration = iteration st + 1, dcenters = dc, radiuses = rad,
                count = cnt', belongs_to = bt' \<rparr>))"

text \<open>\<open>while (!converged && iteration<iterations_)\<close>, line 739.\<close>

function kmeans_loop ::
  "('d, 'r) collab \<Rightarrow> 'd list list \<Rightarrow> nat \<Rightarrow> int list \<Rightarrow> nat \<Rightarrow> int \<Rightarrow> 'd kmeans_state
     \<Rightarrow> 'd kmeans_state result" where
  "kmeans_loop E ds vl idx B iters st =
     (if \<not> converged st \<and> iteration st < iters
      then (case kmeans_iteration E ds vl idx B st of
              Ok st' \<Rightarrow> kmeans_loop E ds vl idx B iters (st' \<lparr> iteration := iteration st + 1 \<rparr>)
            | Fault e \<Rightarrow> Fault e
            | Diverge \<Rightarrow> Diverge)
      else Ok st)"
  by pat_completeness auto
termination
  by (relation "measure (\<lambda>(E, ds, vl, idx, B, iters, st). nat (iters - iteration st))") auto

text \<open>
  The points of cluster \<open>c\<close> are swapped to the positions from \<open>end\<close> on, lines 826-835;
  the sum of their distances to the center is the numerator of the child's variance.
\<close>

definition partition_step ::
  "('d, 'r) collab \<Rightarrow> 'd list list \<Rightarrow> nat \<Rightarrow> 'd list \<Rightarrow> nat
     \<Rightarrow> int list \<times> nat list \<times> nat \<times> 'd \<Rightarrow> nat \<Rightarrow> int list \<times> nat list \<times> nat \<times> 'd" where
  "partition_step E ds vl center c s i =
     (case s of (idx, bt, e, var) \<Rightarrow>
        if bt ! i = c
        then (swap_at idx i e, swap_at bt i e, e + 1,
              add_d E var (distance_' E center (row ds (idx ! i)) vl))
        else (idx, bt, e, var))"

definition partition_cluster ::
  "('d, 'r) collab \<Rightarrow> 'd list list \<Rightarrow> nat \<Rightarrow> 'd list \<Rightarrow> nat
     \<Rightarrow> int list \<Rightarrow> nat list \<Rightarrow> nat \<Rightarrow> int list \<times> nat list \<times> nat \<times> 'd" where
  "partition_cluster E ds vl center c idx bt start =
     foldl (partition_step E ds vl center c) (idx, bt, start, lit_d E 0) [0..<length idx]"

text \<open>
  The loop over the clusters, lines 819-843: child \<open>c\<close> is a new node with the radius,
  the center and the variance of its cluster, clustered in turn (\<open>rec\<close>) on the slice
  \<open>indices[start..end)\<close>. The recursive call permutes that slice only, which the
  later clusters do not read, so the slice is passed by value.
\<close>

fun build_children ::
  "('r \<Rightarrow> 'd KMeansNode \<Rightarrow> int list \<Rightarrow> ('d KMeansNode \<times> 'r) result)
     \<Rightarrow> ('d, 'r) collab \<Rightarrow> 'd list list \<Rightarrow> nat \<Rightarrow> 'd kmeans_state
     \<Rightarrow> nat list \<Rightarrow> int list \<Rightarrow> nat list \<Rightarrow> nat \<Rightarrow> 'r \<Rightarrow> ('d KMeansNode list \<times> 'r) result" where
  "build_children rec E ds vl st [] idx bt start rng = Ok ([], rng)"
| "build_children rec E ds vl st (c # cs) idx bt start rng =
     (case partition_cluster E ds vl (dcenters st ! c) c idx bt start of
        (idx', bt', end', var) \<Rightarrow>
          rbind (div_d E var (count st ! c)) (\<lambda>variance.
          rbind (rec rng (KMeansNode (dcenters st ! c) (radiuses st ! c) variance 0 [] [] 0)
                     (take (end' - start) (drop start idx'))) (\<lambda>(child, rng1).
          rbind (build_children rec E ds vl st cs idx' bt' end' rng1) (\<lambda>(children, rng2).
            Ok (child # children, rng2)))))"

text \<open>
  \<open>computeClustering\<close>. Its recursion ends because every child of a subdivided node holds
  fewer points than the node; with \<open>iterations_ = 0\<close> nothing guarantees that, so the
  model counts the depth of the recursion down from \<open>fuel\<close> and is \<open>Diverge\<close> when it
  is used up. A node becomes a leaf by getting its sorted \<open>indices\<close>, and an inner node
  by getting its \<open>childs\<close>.
\<close>

definition make_leaf :: "'d KMeansNode \<Rightarrow> int list \<Rightarrow> int \<Rightarrow> 'd KMeansNode" where
  "make_leaf node idx lvl =
     KMeansNode (pivot node) (radius node) (variance node) (int (length idx)) (childs node)
                (sort idx) lvl"

primrec computeClustering ::
  "nat \<Rightarrow> ('d, 'r) collab \<Rightarrow> ('d, 'r) KMeansIndex \<Rightarrow> 'r \<Rightarrow> 'd KMeansNode \<Rightarrow> int list \<Rightarrow> int \<Rightarrow> int
     \<Rightarrow> ('d KMeansNode \<times> 'r) result" where
  "computeClustering 0 E ix rng node idx branching lvl = Diverge"
| "computeClustering (Suc fuel) E ix rng node idx branching lvl =
     (if int (length idx) < branching then Ok (make_leaf node idx lvl, rng)
      else if branching < 1 then Fault OutOfRange
      else
        rbind (chooseCenters E ix branching idx rng) (\<lambda>(centers_idx, rng1).
          if int (length centers_idx) < branching then Ok (make_leaf node idx lvl, rng1)
          else if branching < int (length centers_idx)
                  \<or> \<not> list_all (row_ok (dataset_' ix)) centers_idx
                  \<or> \<not> list_all (row_ok (dataset_' ix)) idx
          then Fault OutOfRange
          else
            rbind (kmeans_loop E (dataset_' ix) (veclen_' ix) idx (nat branching) (iterations_' ix)
                     (assign_points E (dataset_' ix) (veclen_' ix) idx
                        (map (row (dataset_' ix)) centers_idx) (nat branching))) (\<lambda>st.
            rbind (build_children
                     (\<lambda>rng' child slice. computeClustering fuel E ix rng' child slice branching (lvl + 1))
                     E (dataset_' ix) (veclen_' ix) st [0..<nat branching] idx (belongs_to st) 0 rng1)
                  (\<lambda>(children, rng2).
              Ok (KMeansNode (pivot node) (radius node) (variance node) (int (length idx)) children
                             (indices node) lvl, rng2)))))"

text \<open>\<open>buildIndex\<close>, lines 369-385.\<close>

definition buildIndex ::
  "nat \<Rightarrow> ('d, 'r) collab \<Rightarrow> ('d, 'r) KMeansIndex \<Rightarrow> ('d, 'r) KMeansIndex result" where
  "buildIndex fuel E ix =
     (if branching_' ix < 2 then Fault BranchingTooSmall
      else
        let idx = map int [0..<size_' ix] in
        rbind (computeNodeStatistics E ix (KMeansNode [] (lit_d E 0) (lit_d E 0) 0 [] [] 0) idx) (\<lambda>rnode.
        rbind (computeClustering fuel E ix (rng_' ix) rnode idx (branching_' ix) 0) (\<lambda>(rnode', rng').
          Ok (ix \<lparr> indices_' := idx, root_' := Some rnode', size_at_build_' := Some (size_' ix),
                   rng_' := rng' \<rparr>))))"

subsection \<open>Online insertion, lines 387-418 and 1071-1103\<close>

text \<open>
  \<open>rbind\<close> runs its second argument only on a result of the first, and \<open>foldM\<close> is a
  loop whose body may fail.
\<close>

lemma rbind_cong [fundef_cong]:
  "m = m' \<Longrightarrow> (\<And>x. m' = Ok x \<Longrightarrow> f x = f' x) \<Longrightarrow> rbind m f = rbind m' f'"
  by (cases m') (simp_all add: rbind_def)

fun foldM :: "('s \<Rightarrow> 'a \<Rightarrow> 's result) \<Rightarrow> 'a list \<Rightarrow> 's \<Rightarrow> 's result" where
  "foldM f [] s = Ok s"
| "foldM f (x # xs) s = rbind (f s x) (foldM f xs)"

lemma foldM_cong [fundef_cong]:
  "xs = ys \<Longrightarrow> s = t \<Longrightarrow> (\<And>x u. x \<in> set ys \<Longrightarrow> f u x = g u x) \<Longrightarrow> foldM f xs s = foldM g ys t"
proof (induction ys arbitrary: xs s t)
  case Nil
  then show ?case by simp
next
  case (Cons y ys)
  have "foldM f ys u = foldM g ys u" for u
    using Cons.IH [of ys u u] Cons.prems(3) by simp
  then have "foldM f ys = foldM g ys" by (rule ext)
  with Cons.prems show ?case by simp
qed

text \<open>
  \<open>addPointToTree\<close>, lines 1074-1079: the radius grows to the distance of the new point,
  the variance is updated and the size incremented.
\<close>

definition touch_node :: "('d, 'r) collab \<Rightarrow> 'd KMeansNode \<Rightarrow> 'd \<Rightarrow> 'd KMeansNode result" where
  "touch_node E node dist_to_pivot =
     rbind (div_d E (add_d E (mul_d E (lit_d E (of_int (node_size node))) (variance node)) dist_to_pivot)
                    (node_size node + 1)) (\<lambda>variance'.
       Ok (KMeansNode (pivot node)
             (if less_d E (radius node) dist_to_pivot then dist_to_pivot else radius node)
             variance' (node_size node + 1) (childs node) (indices node) (level node)))"

text \<open>
  The leaf branch, lines 1082-1088: the point is appended, the statistics of the leaf
  are computed anew from its points, and a leaf that holds \<open>branching_\<close> points is
  clustered (its \<open>indices\<close> are swapped out first).
\<close>

definition addPoint_leaf ::
  "nat \<Rightarrow> ('d, 'r) collab \<Rightarrow> ('d, 'r) KMeansIndex \<Rightarrow> 'r \<Rightarrow> 'd KMeansNode \<Rightarrow> int
     \<Rightarrow> ('d KMeansNode \<times> 'r) result" where
  "addPoint_leaf fuel E ix rng node index =
     (let idx = indices node @ [index] in
      rbind (computeNodeStatistics E ix
               (KMeansNode (pivot node) (radius node) (variance node) (node_size node) (childs node) idx
                           (level node)) idx) (\<lambda>node'.
        if 0 \<le> branching_' ix \<and> nat (branching_' ix) \<le> length idx
        then computeClustering fuel E ix rng
               (KMeansNode (pivot node') (radius node') (variance node') (node_size node') (childs node') []
                           (level node'))
               idx (branching_' ix) (level node')
        else Ok (node', rng)))"

text \<open>The child whose pivot is closest to the point, lines 1092-1100.\<close>

definition closest_child ::
  "('d, 'r) collab \<Rightarrow> nat \<Rightarrow> 'd KMeansNode list \<Rightarrow> 'd list \<Rightarrow> nat \<Rightarrow> nat \<times> 'd" where
  "closest_child E vl cs point B =
     foldl (\<lambda>(closest, dist) i.
              let crt_dist = distance_' E (pivot (cs ! i)) point vl
              in if less_d E crt_dist dist then (i, crt_dist) else (closest, dist))
           (0, distance_' E (pivot (cs ! 0)) point vl) [1..<B]"

definition set_child :: "'d KMeansNode \<Rightarrow> nat \<Rightarrow> 'd KMeansNode \<Rightarrow> 'd KMeansNode" where
  "set_child node i child =
     KMeansNode (pivot node) (radius node) (variance node) (node_size node) ((childs node)[i := child])
                (indices node) (level node)"

lemma closest_child_bound: "fst (closest_child E vl cs point B) < max 1 B"
proof -
  have "fst (foldl (\<lambda>(closest, dist) i.
              let crt_dist = distance_' E (pivot (cs ! i)) point vl
              in if less_d E crt_dist dist then (i, crt_dist) else (closest, dist)) s js) < max 1 B"
    if "fst s < max 1 B" "set js \<subseteq> {1..<B}" for s js
    using that by (induction js arbitrary: s) (auto simp: Let_def split: prod.splits)
  then show ?thesis unfolding closest_child_def by simp
qed

lemma child_size_less: "i < length (childs node) \<Longrightarrow> size (childs node ! i) < size node"
proof (cases node)
  case (KMeansNode p r v s cs ids l)
  assume "i < length (childs node)"
  then have "cs ! i \<in> set cs" using KMeansNode by simp
  then have "size (cs ! i) \<le> size_list size cs"
    by (rule size_list_estimation') simp
  then show ?thesis using KMeansNode by simp
qed

function addPointToTree ::
  "nat \<Rightarrow> ('d, 'r) collab \<Rightarrow> ('d, 'r) KMeansIndex \<Rightarrow> 'r \<Rightarrow> 'd KMeansNode \<Rightarrow> int \<Rightarrow> 'd
     \<Rightarrow> ('d KMeansNode \<times> 'r) result" where
  "addPointToTree fuel E ix rng node index dist_to_pivot =
     (if \<not> row_ok (dataset_' ix) index then Fault OutOfRange
      else
        rbind (touch_node E node dist_to_pivot) (\<lambda>node1.
          if childs node = [] then addPoint_leaf fuel E ix rng node1 index
          else if \<not> (0 \<le> branching_' ix \<and> nat (branching_' ix) \<le> length (childs node))
          then Fault OutOfRange
          else
            (let cd = closest_child E (veclen_' ix) (childs node) (row (dataset_' ix) index)
                        (nat (branching_' ix))
             in rbind (addPointToTree fuel E ix rng (childs node ! fst cd) index (snd cd))
                  (\<lambda>(child, rng'). Ok (set_child node1 (fst cd) child, rng')))))"
  by pat_completeness auto
termination
proof (relation "measure (\<lambda>(fuel, E, ix, rng, node, index, d). size node)", goal_cases)
  case 1
  then show ?case by simp
next
  case (2 fuel E ix rng node index dist_to_pivot node1 cd)
  have "fst cd < max 1 (nat (branching_' ix))"
    using 2 closest_child_bound by metis
  moreover have "max 1 (nat (branching_' ix)) \<le> length (childs node)"
    using 2 by (cases "childs node") auto
  ultimately have "fst cd < length (childs node)" by linarith
  then show ?case by (simp add: child_size_less)
qed


text \<open>
  \<open>addPoints\<close>, lines 387-418. \<open>points\<close> are the rows of the matrix and \<open>points_cols\<close>
  its number of columns. The new rows are appended to the dataset; then either the tree
  is freed and built again, or each new point is added to the tree (\<open>insert_points\<close>,
  the loop of lines 413-416).
\<close>

definition insert_points ::
  "nat \<Rightarrow> ('d, 'r) collab \<Rightarrow> ('d, 'r) KMeansIndex \<Rightarrow> nat \<Rightarrow> 'd list list
     \<Rightarrow> ('d, 'r) KMeansIndex result" where
  "insert_points fuel E ix old_size points =
     foldM (\<lambda>ix2 i.
              case root_' ix2 of
                None \<Rightarrow> Fault NullPointer
              | Some rnode \<Rightarrow>
                  rbind (addPointToTree fuel E ix2 (rng_' ix2) rnode (int (old_size + i))
                           (distance_' E (pivot rnode) (points ! i) (veclen_' ix2)))
                        (\<lambda>(rnode', rng'). Ok (ix2 \<lparr> root_' := Some rnode', rng_' := rng' \<rparr>)))
          [0..<length points] ix"

definition addPoints ::
  "nat \<Rightarrow> ('d, 'r) collab \<Rightarrow> ('d, 'r) KMeansIndex \<Rightarrow> 'd list list \<Rightarrow> nat \<Rightarrow> 'd
     \<Rightarrow> ('d, 'r) KMeansIndex result" where
  "addPoints fuel E ix points points_cols rebuild_threshold =
     (if points_cols \<noteq> veclen_' ix then Fault AssertionFailed
      else
        let old_size = size_' ix;
            ix1 = ix \<lparr> dataset_' := dataset_' ix @ points, size_' := size_' ix + length points,
                       ownDataset_' := True \<rparr>
        in rbind (if less_d E (lit_d E 1) rebuild_threshold
                  then (case size_at_build_' ix1 of
                          None \<Rightarrow> Fault Uninitialised
                        | Some sab \<Rightarrow> Ok (less_d E (mul_d E (lit_d E (of_nat sab)) rebuild_threshold)
                                                 (lit_d E (of_nat (size_' ix1)))))
                  else Ok False) (\<lambda>rebuild.
             if rebuild
             then (case root_' ix1 of
                     None \<Rightarrow> Fault NullPointer
                   | Some rnode \<Rightarrow> buildIndex fuel E ix1)
             else insert_points fuel E ix1 old_size points))"

subsection \<open>Search, lines 462-487 and 863-997\<close>

text \<open>
  \<open>findNeighbors\<close> is a template over the result set, of which it calls \<open>addPoint\<close>,
  \<open>worstDist\<close> and \<open>full\<close>; \<open>'s\<close> is the state of the result set.
\<close>

record ('d, 's) ResultSet =
  addPoint :: "'d \<Rightarrow> int \<Rightarrow> 's \<Rightarrow> 's"
  worstDist :: "'s \<Rightarrow> 'd"
  full :: "'s \<Rightarrow> bool"

text \<open>The test that skips a cluster, lines 868-880 and 943-955.\<close>

definition too_far ::
  "('d, 'r) collab \<Rightarrow> ('d, 's) ResultSet \<Rightarrow> nat \<Rightarrow> 'd KMeansNode \<Rightarrow> 's \<Rightarrow> 'd list \<Rightarrow> bool" where
  "too_far E R vl node result vec =
     (let bsq = distance_' E vec (pivot node) vl;
          rsq = radius node;
          wsq = worstDist R result;
          val = sub_d E (sub_d E bsq rsq) wsq;
          val2 = sub_d E (mul_d E val val) (mul_d E (mul_d E (lit_d E 4) rsq) wsq)
      in less_d E (lit_d E 0) val \<and> less_d E (lit_d E 0) val2)"

text \<open>The loop over the points of a leaf, lines 887-891 and 959-963.\<close>

definition scan_leaf ::
  "('d, 'r) collab \<Rightarrow> ('d, 's) ResultSet \<Rightarrow> ('d, 'r) KMeansIndex \<Rightarrow> 'd KMeansNode \<Rightarrow> 's \<Rightarrow> 'd list
     \<Rightarrow> 's result" where
  "scan_leaf E R ix node result vec =
     (let k = nat (node_size node) in
      if length (indices node) < k \<or> \<not> list_all (row_ok (dataset_' ix)) (take k (indices node))
      then Fault OutOfRange
      else Ok (foldl (\<lambda>res index.
                        addPoint R (distance_' E (row (dataset_' ix) index) vec (veclen_' ix)) index res)
                     result (take k (indices node))))"

text \<open>
  Modelled from the spec: the heap of \<open>flann/util/heap.h\<close>, absent from the sources at
  hand, is a min-heap over (node, key) pairs with \<open>insert\<close> and \<open>popMin\<close>. It is a list
  here; \<open>popMin\<close> removes the first branch of least key.
\<close>

type_synonym 'd BranchSt = "'d KMeansNode \<times> 'd"

definition heap_insert :: "'d BranchSt list \<Rightarrow> 'd BranchSt \<Rightarrow> 'd BranchSt list" where
  "heap_insert heap b = heap @ [b]"

fun popMin :: "('d, 'r) collab \<Rightarrow> 'd BranchSt list \<Rightarrow> ('d BranchSt \<times> 'd BranchSt list) option" where
  "popMin E [] = None"
| "popMin E (b # bs) =
     (case popMin E bs of
        None \<Rightarrow> Some (b, [])
      | Some (m, rest) \<Rightarrow> if less_d E (snd m) (snd b) then Some (m, b # rest) else Some (b, bs))"

text \<open>\<open>exploreNodeBranches\<close>, lines 907-933.\<close>

definition best_branch :: "('d, 'r) collab \<Rightarrow> 'd list \<Rightarrow> nat \<Rightarrow> nat" where
  "best_branch E domain_distances B =
     foldl (\<lambda>best_index i.
              if less_d E (domain_distances ! i) (domain_distances ! best_index) then i else best_index)
           0 [1..<B]"

definition exploreNodeBranches ::
  "('d, 'r) collab \<Rightarrow> ('d, 'r) KMeansIndex \<Rightarrow> 'd KMeansNode \<Rightarrow> 'd list \<Rightarrow> 'd BranchSt list
     \<Rightarrow> (nat \<times> 'd BranchSt list) result" where
  "exploreNodeBranches E ix node q heap =
     (if \<not> (1 \<le> branching_' ix \<and> nat (branching_' ix) \<le> length (childs node)) then Fault OutOfRange
      else
        let B = nat (branching_' ix);
            domain_distances = map (\<lambda>i. distance_' E q (pivot (childs node ! i)) (veclen_' ix)) [0..<B];
            best_index = best_branch E domain_distances B
        in Ok (best_index,
               foldl (\<lambda>h i. if i \<noteq> best_index
                             then heap_insert h (childs node ! i,
                                    sub_d E (domain_distances ! i)
                                            (mul_d E (cb_index_' ix) (variance (childs node ! i))))
                             else h)
                     heap [0..<B]))"

lemma best_branch_bound: "best_branch E dd B < max 1 B"
proof -
  have "foldl (\<lambda>best_index i.
              if less_d E (dd ! i) (dd ! best_index) then i else best_index) s js < max 1 B"
    if "s < max 1 B" "set js \<subseteq> {1..<B}" for s js
    using that by (induction js arbitrary: s) auto
  then show ?thesis unfolding best_branch_def by simp
qed

lemma exploreNodeBranches_bound:
  assumes "exploreNodeBranches E ix node q heap = Ok (i, heap')"
  shows "i < length (childs node)"
proof -
  let ?B = "nat (branching_' ix)"
  from assms have g: "1 \<le> branching_' ix" "?B \<le> length (childs node)"
    and "\<exists>dd. i = best_branch E dd ?B"
    by (auto simp: exploreNodeBranches_def Let_def split: if_splits)
  then obtain dd where "i = best_branch E dd ?B" by blast
  then have "i < max 1 ?B" using best_branch_bound [of E dd ?B] by simp
  with g show ?thesis by auto
qed

text \<open>\<open>findNN\<close>, lines 863-897: one descent; \<open>checks\<close> is passed by reference.\<close>

function findNN ::
  "('d, 'r) collab \<Rightarrow> ('d, 's) ResultSet \<Rightarrow> ('d, 'r) KMeansIndex \<Rightarrow> 'd KMeansNode \<Rightarrow> 's \<Rightarrow> 'd list
     \<Rightarrow> int \<Rightarrow> int \<Rightarrow> 'd BranchSt list \<Rightarrow> ('s \<times> int \<times> 'd BranchSt list) result" where
  "findNN E R ix node result vec checks maxChecks heap =
     (if too_far E R (veclen_' ix) node result vec then Ok (result, checks, heap)
      else if childs node = []
      then (if maxChecks \<le> checks \<and> full R result then Ok (result, checks, heap)
            else rbind (scan_leaf E R ix node result vec)
                   (\<lambda>result'. Ok (result', checks + node_size node, heap)))
      else
        rbind (exploreNodeBranches E ix node vec heap) (\<lambda>(closest_center, heap').
          findNN E R ix (childs node ! closest_center) result vec checks maxChecks heap'))"
  by pat_completeness auto
termination
proof (relation "measure (\<lambda>(E, R, ix, node, result, vec, checks, maxChecks, heap). size node)",
       goal_cases)
  case 1
  then show ?case by simp
next
  case (2 E R ix node result vec checks maxChecks heap x closest_center heap')
  then have "closest_center < length (childs node)"
    using exploreNodeBranches_bound by metis
  then show ?case by (simp add: child_size_less)
qed


text \<open>
  The loop of \<open>findNeighbors\<close>, lines 478-482, ends because a descent from a branch
  puts only nodes below that branch on the heap: the number of nodes under the branches
  of the heap decreases.
\<close>

fun tsize :: "'d KMeansNode \<Rightarrow> nat" where
  "tsize (KMeansNode p r v s cs ids l) = Suc (sum_list (map tsize cs))"

definition hsize :: "'d BranchSt list \<Rightarrow> nat" where
  "hsize heap = sum_list (map (\<lambda>b. tsize (fst b)) heap)"

lemma tsize_childs: "tsize node = Suc (sum_list (map tsize (childs node)))"
  by (cases node) simp

lemma popMin_hsize: "popMin E heap = Some (b, rest) \<Longrightarrow> hsize heap = tsize (fst b) + hsize rest"
proof (induction heap arbitrary: b rest)
  case Nil
  then show ?case by simp
next
  case (Cons a heap)
  show ?case
  proof (cases "popMin E heap")
    case None
    then have "heap = []" by (cases heap) (auto split: option.splits if_splits)
    with Cons.prems None show ?thesis by (simp add: hsize_def)
  next
    case (Some mr)
    obtain m r where mr: "mr = (m, r)" by (cases mr)
    have ih: "hsize heap = tsize (fst m) + hsize r" using Cons.IH Some mr by simp
    show ?thesis
    proof (cases "less_d E (snd m) (snd a)")
      case True
      with Cons.prems Some mr have "b = m" "rest = a # r" by simp_all
      with ih show ?thesis by (simp add: hsize_def)
    next
      case False
      with Cons.prems Some mr have "b = a" "rest = heap" by simp_all
      then show ?thesis by (simp add: hsize_def)
    qed
  qed
qed

lemma hsize_pushes:
  "hsize (foldl (\<lambda>h i. if i \<noteq> best then heap_insert h (cs ! i, key i) else h) heap js)
     = hsize heap + sum_list (map (\<lambda>i. if i \<noteq> best then tsize (cs ! i) else 0) js)"
  by (induction js arbitrary: heap) (simp_all add: hsize_def heap_insert_def)

lemma sum_list_except:
  fixes f :: "nat \<Rightarrow> nat"
  assumes "best < B"
  shows "sum_list (map (\<lambda>i. if i \<noteq> best then f i else 0) [0..<B]) + f best
           = sum_list (map f [0..<B])"
proof -
  have "sum_list (map (\<lambda>i. if i \<noteq> best then f i else 0) [0..<B])
          = (\<Sum>i\<in>{0..<B}. if i \<noteq> best then f i else (0::nat))"
    by (simp add: interv_sum_list_conv_sum_set_nat)
  also have "\<dots> = (\<Sum>i\<in>{0..<B} - {best}. f i)"
    by (rule sum.mono_neutral_cong_right) auto
  finally have "sum_list (map (\<lambda>i. if i \<noteq> best then f i else 0) [0..<B]) + f best
          = (\<Sum>i\<in>{0..<B} - {best}. f i) + f best" by simp
  also have "\<dots> = (\<Sum>i\<in>{0..<B}. f i)"
    using assms by (simp add: sum.remove [of "{0..<B}" best f])
  finally show ?thesis by (simp add: interv_sum_list_conv_sum_set_nat)
qed

lemma sum_list_take_le:
  "sum_list (map f (take n xs)) \<le> sum_list (map (f :: 'a \<Rightarrow> nat) xs)"
proof -
  have "sum_list (map f xs) = sum_list (map f (take n xs)) + sum_list (map f (drop n xs))"
    by (metis append_take_drop_id map_append sum_list_append)
  then show ?thesis by simp
qed

lemma exploreNodeBranches_hsize:
  assumes "exploreNodeBranches E ix node q heap = Ok (i, heap')"
  shows "hsize heap' + tsize (childs node ! i) \<le> hsize heap + sum_list (map tsize (childs node))"
proof -
  let ?B = "nat (branching_' ix)"
  let ?cs = "childs node"
  from assms have g: "1 \<le> branching_' ix" "?B \<le> length ?cs"
    by (auto simp: exploreNodeBranches_def Let_def split: if_splits)
  from assms g obtain key where
    h: "heap' = foldl (\<lambda>h j. if j \<noteq> i then heap_insert h (?cs ! j, key j) else h) heap [0..<?B]"
    by (auto simp: exploreNodeBranches_def Let_def split: if_splits)
  have "i < max 1 ?B"
    using assms g best_branch_bound [of E _ ?B]
    by (auto simp: exploreNodeBranches_def Let_def split: if_splits)
  with g have iB: "i < ?B" by auto
  have "hsize heap' + tsize (?cs ! i)
          = hsize heap + sum_list (map (\<lambda>j. tsize (?cs ! j)) [0..<?B])"
    unfolding h hsize_pushes using sum_list_except [OF iB, of "\<lambda>j. tsize (?cs ! j)"] by simp
  also have "map (\<lambda>j. tsize (?cs ! j)) [0..<?B] = map tsize (take ?B ?cs)"
    using g by (simp add: list_eq_iff_nth_eq)
  finally show ?thesis using sum_list_take_le [of tsize ?B ?cs] by simp
qed

lemma findNN_hsize:
  "findNN E R ix node result vec checks maxChecks heap = Ok (result', checks', heap')
     \<Longrightarrow> hsize heap' < hsize heap + tsize node"
proof (induction E R ix node result vec checks maxChecks heap rule: findNN.induct)
  case (1 E R ix node result vec checks maxChecks heap)
  show ?case
  proof (cases "too_far E R (veclen_' ix) node result vec")
    case True
    with "1.prems" show ?thesis by (simp add: tsize_childs)
  next
    case far: False
    show ?thesis
    proof (cases "childs node = []")
      case True
      with far "1.prems" show ?thesis
        by (auto simp: rbind_def tsize_childs split: if_splits result.splits)
    next
      case False
      with far "1.prems" obtain i h1 where
        e: "exploreNodeBranches E ix node vec heap = Ok (i, h1)"
        and r: "findNN E R ix (childs node ! i) result vec checks maxChecks h1 = Ok (result', checks', heap')"
        by (auto simp: rbind_def split: result.splits)
      have "hsize heap' < hsize h1 + tsize (childs node ! i)"
        using "1.IH" [OF far False e refl r] .
      with exploreNodeBranches_hsize [OF e] show ?thesis by (simp add: tsize_childs)
    qed
  qed
qed

function findNN_loop ::
  "('d, 'r) collab \<Rightarrow> ('d, 's) ResultSet \<Rightarrow> ('d, 'r) KMeansIndex \<Rightarrow> 'd list \<Rightarrow> int
     \<Rightarrow> 's \<times> int \<times> 'd BranchSt list \<Rightarrow> ('s \<times> int) result" where
  "findNN_loop E R ix vec maxChecks (result, checks, heap) =
     (case popMin E heap of
        None \<Rightarrow> Ok (result, checks)
      | Some (branch, heap') \<Rightarrow>
          if checks < maxChecks \<or> \<not> full R result
          then rbind (findNN E R ix (fst branch) result vec checks maxChecks heap')
                     (findNN_loop E R ix vec maxChecks)
          else Ok (result, checks))"
  by pat_completeness auto
termination
proof (relation "measure (\<lambda>(E, R, ix, vec, maxChecks, result, checks, heap). hsize heap)", goal_cases)
  case 1
  then show ?case by simp
next
  case (2 E R ix vec maxChecks result checks heap x2 branch heap' s)
  obtain r' c' h' where s: "s = (r', c', h')" by (cases s)
  have "hsize h' < hsize heap' + tsize (fst branch)"
    using 2 s findNN_hsize by metis
  moreover have "hsize heap = tsize (fst branch) + hsize heap'"
    using 2 popMin_hsize by metis
  ultimately show ?case using s by simp
qed


text \<open>
  \<open>getCenterOrdering\<close>, lines 982-997: the children sorted by insertion on the distance
  of their pivots; a child goes before the first one that is not strictly closer.
\<close>

definition ordering_step ::
  "('d, 'r) collab \<Rightarrow> nat \<Rightarrow> 'd KMeansNode \<Rightarrow> 'd list \<Rightarrow> 'd list \<times> nat list \<Rightarrow> nat
     \<Rightarrow> 'd list \<times> nat list" where
  "ordering_step E vl node q s i =
     (case s of (domain_distances, sort_indices) \<Rightarrow>
        let dist = distance_' E q (pivot (childs node ! i)) vl;
            j = length (takeWhile (\<lambda>x. less_d E x dist) domain_distances)
        in (take j domain_distances @ dist # drop j domain_distances,
            take j sort_indices @ i # drop j sort_indices))"

definition getCenterOrdering ::
  "('d, 'r) collab \<Rightarrow> nat \<Rightarrow> 'd KMeansNode \<Rightarrow> 'd list \<Rightarrow> nat \<Rightarrow> nat list" where
  "getCenterOrdering E vl node q B = snd (foldl (ordering_step E vl node q) ([], []) [0..<B])"

lemma ordering_step_set:
  "set (snd (foldl (ordering_step E vl node q) s js)) = set (snd s) \<union> set js"
proof (induction js arbitrary: s)
  case Nil
  then show ?case by simp
next
  case (Cons j js)
  obtain dd si where s: "s = (dd, si)" by (cases s)
  have "set (snd (ordering_step E vl node q s j)) = insert j (set si)"
    unfolding s ordering_step_def Let_def
    by (simp add: set_append [symmetric] del: set_append)
       (metis append_take_drop_id set_append Un_insert_right insert_is_Un sup_commute list.simps(15))
  with Cons.IH [of "ordering_step E vl node q s j"] s show ?case by auto
qed

lemma getCenterOrdering_set: "set (getCenterOrdering E vl node q B) = {0..<B}"
  unfolding getCenterOrdering_def ordering_step_set by auto

text \<open>\<open>findExactNN\<close>, lines 939-974.\<close>

function findExactNN ::
  "('d, 'r) collab \<Rightarrow> ('d, 's) ResultSet \<Rightarrow> ('d, 'r) KMeansIndex \<Rightarrow> 'd KMeansNode \<Rightarrow> 's \<Rightarrow> 'd list
     \<Rightarrow> 's result" where
  "findExactNN E R ix node result vec =
     (if too_far E R (veclen_' ix) node result vec then Ok result
      else if childs node = [] then scan_leaf E R ix node result vec
      else if \<not> (0 \<le> branching_' ix \<and> nat (branching_' ix) \<le> length (childs node))
      then Fault OutOfRange
      else foldM (\<lambda>res i. findExactNN E R ix (childs node ! i) res vec)
                 (getCenterOrdering E (veclen_' ix) node vec (nat (branching_' ix))) result)"
  by pat_completeness auto
termination
proof (relation "measure (\<lambda>(E, R, ix, node, result, vec). size node)", goal_cases)
  case 1
  then show ?case by simp
next
  case (2 E R ix node result vec i res)
  then have "i < nat (branching_' ix)" by (simp add: getCenterOrdering_set)
  with 2 have "i < length (childs node)" by simp
  then show ?case by (simp add: child_size_less)
qed

text \<open>
  \<open>findNeighbors\<close>, lines 462-487. Modelled from the spec: \<open>FLANN_CHECKS_UNLIMITED\<close>
  of \<open>flann/defines.h\<close> is the sentinel that selects the exact search; its value there
  is \<open>-1\<close>. Both branches read \<open>root_->pivot\<close> first. \<open>findNeighbors_approx\<close> is the
  else-branch and returns the local \<open>checks\<close> next to the result set.
\<close>

definition FLANN_CHECKS_UNLIMITED :: int where
  "FLANN_CHECKS_UNLIMITED = - 1"

definition findNeighbors_approx ::
  "('d, 'r) collab \<Rightarrow> ('d, 's) ResultSet \<Rightarrow> ('d, 'r) KMeansIndex \<Rightarrow> 'd KMeansNode \<Rightarrow> 's \<Rightarrow> 'd list
     \<Rightarrow> int \<Rightarrow> ('s \<times> int) result" where
  "findNeighbors_approx E R ix rnode result vec maxChecks =
     rbind (findNN E R ix rnode result vec 0 maxChecks []) (findNN_loop E R ix vec maxChecks)"

definition findNeighbors ::
  "('d, 'r) collab \<Rightarrow> ('d, 's) ResultSet \<Rightarrow> ('d, 'r) KMeansIndex \<Rightarrow> 's \<Rightarrow> 'd list \<Rightarrow> int
     \<Rightarrow> 's result" where
  "findNeighbors E R ix result vec maxChecks =
     (case root_' ix of
        None \<Rightarrow> Fault NullPointer
      | Some rnode \<Rightarrow>
          if maxChecks = FLANN_CHECKS_UNLIMITED then findExactNN E R ix rnode result vec
          else rbind (findNeighbors_approx E R ix rnode result vec maxChecks)
                     (\<lambda>(result', checks). Ok result'))"

subsection \<open>Exact arithmetic and a k-nearest-neighbour result set\<close>

text \<open>
  An instance of the collaborators for concrete runs: \<open>DistanceType\<close> is \<open>real\<close> with
  exact operations, the distance is the squared Euclidean distance of \<open>L2\<close>, and a
  division by the count zero is a fault, since no real number is its value. The state
  of the random source is the list of the values \<open>rand_double\<close> still has to return as
  fractions of its argument (zero when the list is used up); \<open>rand_int\<close> returns
  zero and the unique draw is the identity permutation.
\<close>

definition sq_euclid :: "real list \<Rightarrow> real list \<Rightarrow> nat \<Rightarrow> real" where
  "sq_euclid a b n = sum_list (map (\<lambda>k. (a ! k - b ! k) * (a ! k - b ! k)) [0..<n])"

definition exact_collab :: "(real, real list) collab" where
  "exact_collab =
     \<lparr> distance_' = sq_euclid,
       less_d = (\<lambda>a b. a < b),
       le_d = (\<lambda>a b. a \<le> b),
       add_d = (\<lambda>a b. a + b),
       sub_d = (\<lambda>a b. a - b),
       mul_d = (\<lambda>a b. a * b),
       div_d = (\<lambda>x n. if n = 0 then Fault DivisionByZero else Ok (x / of_int n)),
       lit_d = of_rat,
       rand_int = (\<lambda>n r. (0, r)),
       rand_double = (\<lambda>x r. case r of [] \<Rightarrow> (0, []) | f # r' \<Rightarrow> (f * x, r')),
       unique_random = (\<lambda>n r. (map int [0..<nat n], r)) \<rparr>"

text \<open>
  Modelled from the spec: the result set of \<open>flann/util/result_set.h\<close>, absent from the
  sources at hand, collects the \<open>capacity\<close> nearest points offered to \<open>addPoint\<close>;
  \<open>worstDist\<close> is the current k-th best distance and \<open>full\<close> tells whether the capacity
  is reached. Before that \<open>worstDist\<close> is the largest value of the distance type, here
  the largest \<open>float\<close>. The state is the list of the points kept, nearest first.
\<close>

definition FLT_MAX :: real where
  "FLT_MAX = 340282346638528859811704183484516925440"

fun knn_insert :: "real \<times> int \<Rightarrow> (real \<times> int) list \<Rightarrow> (real \<times> int) list" where
  "knn_insert p [] = [p]"
| "knn_insert p (q # qs) = (if fst p < fst q then p # q # qs else q # knn_insert p qs)"

definition KNNResultSet :: "nat \<Rightarrow> (real, (real \<times> int) list) ResultSet" where
  "KNNResultSet capacity =
     \<lparr> addPoint = (\<lambda>dist index pts. take capacity (knn_insert (dist, index) pts)),
       worstDist = (\<lambda>pts. if length pts < capacity \<or> pts = [] then FLT_MAX else fst (last pts)),
       full = (\<lambda>pts. capacity \<le> length pts) \<rparr>"

subsection \<open>Concrete indexes\<close>

text \<open>
  The index built over the one point \<open>0\<close> with \<open>branching = 5\<close>, and the first
  assignment of the points \<open>0\<close> and \<open>4\<close> to themselves as centers.
\<close>

definition built_one :: "(real, real list) KMeansIndex" where
  "built_one =
     \<lparr> branching_' = 5, iterations_' = 11, centers_init_' = FLANN_CENTERS_RANDOM,
       cb_index_' = 2 / 5, dataset_' = [[0]], ownDataset_' = False, size_' = 1,
       size_at_build_' = Some 1, veclen_' = 1,
       root_' = Some (KMeansNode [0] 0 0 1 [] [0] 0), indices_' = [0], rng_' = [] \<rparr>"

definition two_points_state :: "real kmeans_state" where
  "two_points_state = assign_points exact_collab [[0], [4]] 1 [0, 1] [[0], [4]] 2"

subsection \<open>Invariants of the clustering\<close>

text \<open>
  \<open>count\<close> holds, for each cluster, the number of points that \<open>belongs_to\<close> assigns
  to it, and every entry of \<open>belongs_to\<close> names a cluster.
\<close>

definition counts_ok :: "nat \<Rightarrow> nat \<Rightarrow> nat list \<Rightarrow> int list \<Rightarrow> bool" where
  "counts_ok n B bt cnt \<longleftrightarrow>
     length bt = n \<and> (\<forall>k<n. bt ! k < B) \<and> length cnt = B
     \<and> (\<forall>c<B. cnt ! c = int (count_list bt c))"

text \<open>
  The loop that moves the points of cluster \<open>c\<close> to the positions from \<open>start\<close> on,
  after \<open>i\<close> steps: the positions before \<open>start\<close> hold smaller clusters and are not
  touched, those from \<open>start\<close> to \<open>e\<close> hold cluster \<open>c\<close>, and those from \<open>e\<close> to
  \<open>i\<close> larger ones.
\<close>

definition part_inv ::
  "nat \<Rightarrow> int list \<Rightarrow> nat list \<Rightarrow> nat \<Rightarrow> nat \<Rightarrow> nat \<Rightarrow> int list \<Rightarrow> nat list \<Rightarrow> nat \<Rightarrow> bool" where
  "part_inv n idx bt start c i idx' bt' e \<longleftrightarrow>
     length idx' = n \<and> length bt' = n \<and> mset idx' = mset idx \<and> mset bt' = mset bt
     \<and> start \<le> e \<and> e \<le> max start i
     \<and> (\<forall>k<start. bt' ! k < c)
     \<and> (\<forall>k. start \<le> k \<and> k < e \<longrightarrow> bt' ! k = c)
     \<and> (\<forall>k. e \<le> k \<and> k < i \<longrightarrow> c < bt' ! k)
     \<and> (\<forall>k. start \<le> k \<and> k < n \<longrightarrow> c \<le> bt' ! k)
     \<and> (\<forall>k<start. idx' ! k = idx ! k)"

text \<open>
  The ids under a node, and the shape of a tree with branching factor \<open>B\<close>: an inner
  node has \<open>B\<close> children whose sizes add up to its own; a leaf has as many sorted ids as
  its size says, fewer than \<open>B\<close> unless they are degenerate (\<open>D\<close>). For a tree built
  by the index, a set of ids is degenerate when \<open>chooseCenters\<close>, asked for \<open>branching\<close>
  centers among them in some order, returned fewer.
\<close>

fun leaf_ids :: "'d KMeansNode \<Rightarrow> int list" where
  "leaf_ids (KMeansNode p r v s cs ids l) = (if cs = [] then ids else concat (map leaf_ids cs))"

fun tree_ok :: "nat \<Rightarrow> (int list \<Rightarrow> bool) \<Rightarrow> 'd KMeansNode \<Rightarrow> bool" where
  "tree_ok B D (KMeansNode p r v s cs ids l) =
     (if cs = [] then s = int (length ids) \<and> sorted ids \<and> (length ids < B \<or> D ids)
      else length cs = B \<and> s = sum_list (map node_size cs) \<and> list_all (tree_ok B D) cs)"

definition degenerate :: "('d, 'r) collab \<Rightarrow> ('d, 'r) KMeansIndex \<Rightarrow> int \<Rightarrow> int list \<Rightarrow> bool" where
  "degenerate E ix branching ids \<longleftrightarrow>
     (\<exists>perm rng cs rng'. mset perm = mset ids \<and> chooseCenters E ix branching perm rng = Ok (cs, rng')
        \<and> int (length cs) < branching)"

definition node_ok :: "nat \<Rightarrow> (int list \<Rightarrow> bool) \<Rightarrow> int list \<Rightarrow> 'd KMeansNode \<Rightarrow> bool" where
  "node_ok B D slice node \<longleftrightarrow>
     tree_ok B D node \<and> node_size node = int (length slice) \<and> mset (leaf_ids node) = mset slice"

text \<open>
  The exact arithmetic with a division that does not fault on a zero divisor: its
  quotient is then \<open>0\<close>, where IEEE arithmetic has a NaN for \<open>0/0\<close>.
\<close>

definition untrapped_collab :: "(real, real list) collab" where
  "untrapped_collab = exact_collab \<lparr> div_d := (\<lambda>x n. Ok (x / of_int n)) \<rparr>"

text \<open>
  The index over the six points \<open>0, 10, 100, 54, 56, 56\<close> with \<open>branching = 3\<close> and
  \<open>iterations = 1\<close>: as constructed, its root after the statistics, its tree and the
  index as built.
\<close>

definition six_fresh :: "(real, real list) KMeansIndex" where
  "six_fresh =
     \<lparr> branching_' = 3, iterations_' = 1, centers_init_' = FLANN_CENTERS_RANDOM,
       cb_index_' = 2 / 5, dataset_' = [[0], [10], [100], [54], [56], [56]], ownDataset_' = False,
       size_' = 6, size_at_build_' = None, veclen_' = 1, root_' = None, indices_' = [],
       rng_' = [] \<rparr>"

definition six_root :: "real KMeansNode" where
  "six_root = KMeansNode [46] 2916 (3296 / 3) 0 [] [] 0"

definition six_tree :: "real KMeansNode" where
  "six_tree =
     KMeansNode [46] 2916 (3296 / 3) 6
       [KMeansNode [0] 100 50 2 [] [0, 1] 1,
        KMeansNode [32] 0 4624 1 [] [2] 1,
        KMeansNode [212 / 3] (7744 / 9) 236 3 [] [3, 4, 5] 1]
       [] 0"

definition six_index :: "(real, real list) KMeansIndex" where
  "six_index =
     six_fresh \<lparr> size_at_build_' := Some 6, root_' := Some six_tree, indices_' := [0, 1, 2, 3, 4, 5] \<rparr>"

subsection \<open>Trees that can be searched\<close>

text \<open>
  What the search reads of a tree: of an inner node its first \<open>branching_\<close> children, of
  a leaf its first \<open>size\<close> ids and their rows of the dataset.
\<close>

fun searchable :: "('d, 'r) KMeansIndex \<Rightarrow> 'd KMeansNode \<Rightarrow> bool" where
  "searchable ix (KMeansNode p r v s cs ids l) =
     (if cs = [] then nat s \<le> length ids \<and> list_all (row_ok (dataset_' ix)) (take (nat s) ids)
      else 1 \<le> branching_' ix \<and> nat (branching_' ix) \<le> length cs \<and> list_all (searchable ix) cs)"

definition heap_ok :: "('d, 'r) KMeansIndex \<Rightarrow> 'd BranchSt list \<Rightarrow> bool" where
  "heap_ok ix heap = list_all (\<lambda>b. searchable ix (fst b)) heap"

subsection \<open>Counting the points a search evaluates\<close>

text \<open>
  What the search needs to know of a k-nearest-neighbour result set of capacity \<open>k\<close>:
  it holds a number of points, is full when that number is \<open>k\<close>, and holds one more
  after \<open>addPoint\<close> unless it is full.
\<close>

definition knn_contract :: "('d, 's) ResultSet \<Rightarrow> ('s \<Rightarrow> nat) \<Rightarrow> nat \<Rightarrow> bool" where
  "knn_contract R held k \<longleftrightarrow>
     (\<forall>s. full R s = (k \<le> held s)) \<and> (\<forall>d i s. held (addPoint R d i s) = min k (held s + 1))"

text \<open>
  A bound \<open>L\<close> on the sizes of the leaves, the number of points in the leaves under a
  node and under the branches of a heap, and a property of all branches of a heap.
\<close>

fun leaves_le :: "int \<Rightarrow> 'd KMeansNode \<Rightarrow> bool" where
  "leaves_le L (KMeansNode p r v s cs ids l) =
     (if cs = [] then 0 \<le> s \<and> s \<le> L else list_all (leaves_le L) cs)"

fun leaf_points :: "'d KMeansNode \<Rightarrow> nat" where
  "leaf_points (KMeansNode p r v s cs ids l) =
     (if cs = [] then nat s else sum_list (map leaf_points cs))"

definition heap_points :: "'d BranchSt list \<Rightarrow> nat" where
  "heap_points heap = sum_list (map (\<lambda>b. leaf_points (fst b)) heap)"

definition heap_all :: "('d KMeansNode \<Rightarrow> bool) \<Rightarrow> 'd BranchSt list \<Rightarrow> bool" where
  "heap_all P heap = list_all (\<lambda>b. P (fst b)) heap"

text \<open>
  The state of an approximate search that started with \<open>h0\<close> points in the result set:
  the set holds the points evaluated so far on top of them, up to its capacity, and
  \<open>checks\<close> is below the bound.
\<close>

definition checks_inv ::
  "('s \<Rightarrow> nat) \<Rightarrow> nat \<Rightarrow> nat \<Rightarrow> int \<Rightarrow> int \<Rightarrow> 's \<Rightarrow> int \<Rightarrow> bool" where
  "checks_inv held k h0 maxChecks L result checks \<longleftrightarrow>
     0 \<le> checks \<and> held result = min k (h0 + nat checks)
     \<and> checks \<le> max 0 (max maxChecks (int k - int h0) - 1 + L)"

subsection \<open>Radii before and after an insertion\<close>

text \<open>
  \<open>radius_mono E node node'\<close> compares a tree with the tree that \<open>addPointToTree\<close> makes
  of it, node by node from the root: a node that has children keeps the number of its
  children, its radius is the same or smaller than the radius of the node that replaces
  it, and the same holds of each child. Of a node without children nothing is required.
\<close>

fun radius_mono :: "('d, 'r) collab \<Rightarrow> 'd KMeansNode \<Rightarrow> 'd KMeansNode \<Rightarrow> bool" where
  "radius_mono E (KMeansNode p r v s cs ids l) node' =
     (if cs = [] then True
      else (radius node' = r \<or> less_d E r (radius node'))
           \<and> list_all2 (radius_mono E) cs (childs node'))"

text \<open>
  The six points after the online insertion of the point \<open>57\<close> (id \<open>6\<close>): it goes down to
  the third child, whose four ids are then clustered again.
\<close>

definition seven_tree :: "real KMeansNode" where
  "seven_tree =
     KMeansNode [46] 2916 959 7
       [KMeansNode [0] 100 50 2 [] [0, 1] 1,
        KMeansNode [32] 0 4624 1 [] [2] 1,
        KMeansNode [223 / 4] (49 / 16) (19 / 16) 4
          [KMeansNode [54] 0 0 1 [] [3] 2,
           KMeansNode [56] 0 0 2 [] [4, 5] 2,
           KMeansNode [57] 0 0 1 [] [6] 2]
          [] 1]
       [] 0"

definition seven_index :: "(real, real list) KMeansIndex" where
  "seven_index =
     six_index \<lparr> dataset_' := [[0], [10], [100], [54], [56], [56], [57]], ownDataset_' := True,
                 size_' := 7, root_' := Some seven_tree \<rparr>"

subsection \<open>The exact search against a linear scan\<close>

text \<open>
  The squared distance of the query \<open>q\<close> to the dataset row \<open>i\<close>, and the property of
  a tree that the pruning test of \<open>findExactNN\<close> relies on: the radius of every node is
  no less than the distance of its pivot to each point in the leaves below it.
\<close>

definition point_dist :: "(real, 'r) KMeansIndex \<Rightarrow> real list \<Rightarrow> int \<Rightarrow> real" where
  "point_dist ix q i = sq_euclid (row (dataset_' ix) i) q (veclen_' ix)"

fun radius_ok :: "(real, 'r) KMeansIndex \<Rightarrow> real KMeansNode \<Rightarrow> bool" where
  "radius_ok ix (KMeansNode p r v s cs ids l) =
     (list_all (\<lambda>i. point_dist ix p i \<le> r) (leaf_ids (KMeansNode p r v s cs ids l))
      \<and> list_all (radius_ok ix) cs)"

text \<open>
  Modelled from the spec: the linear scan, which is not part of the sources at hand,
  submits the distance of every dataset point \<open>0 .. N-1\<close> to the result set, in this
  order.
\<close>

definition linear_scan ::
  "('d, 'r) collab \<Rightarrow> ('d, 's) ResultSet \<Rightarrow> ('d, 'r) KMeansIndex \<Rightarrow> 's \<Rightarrow> 'd list \<Rightarrow> 's" where
  "linear_scan E R ix result vec =
     foldl (\<lambda>res index. addPoint R (distance_' E (row (dataset_' ix) index) vec (veclen_' ix)) index res)
           result (map int [0..<size_' ix])"

text \<open>
  A state of the k-nearest-neighbour result set that accounts for the multiset \<open>M\<close> of
  distances: its distances are the \<open>k\<close> least of \<open>M\<close>, in ascending order.
\<close>

definition knn_state :: "nat \<Rightarrow> (real \<times> int) list \<Rightarrow> real multiset \<Rightarrow> bool" where
  "knn_state k st M \<longleftrightarrow> map fst st = take k (sorted_list_of_multiset M)"

text \<open>
  The six points again, built with the default iteration cap \<open>11\<close>: the clustering
  converges, to the clusters \<open>{0, 10}\<close>, \<open>{100}\<close> and \<open>{54, 56, 56}\<close>.
\<close>

definition eleven_fresh :: "(real, real list) KMeansIndex" where
  "eleven_fresh = six_fresh \<lparr> iterations_' := 11 \<rparr>"

definition eleven_tree :: "real KMeansNode" where
  "eleven_tree =
     KMeansNode [46] 2916 (3296 / 3) 6
       [KMeansNode [5] 25 25 2 [] [0, 1] 1,
        KMeansNode [100] 0 0 1 [] [2] 1,
        KMeansNode [166 / 3] (16 / 9) (8 / 9) 3 [] [3, 4, 5] 1]
       [] 0"

definition eleven_index :: "(real, real list) KMeansIndex" where
  "eleven_index =
     eleven_fresh \<lparr> size_at_build_' := Some 6, root_' := Some eleven_tree,
                    indices_' := [0, 1, 2, 3, 4, 5] \<rparr>"

section \<open>Properties\<close>

subsection \<open>Construction\<close>

lemma rbind_Ok [simp]: "rbind (Ok x) f = f x"
  by (simp add: rbind_def)

lemma rbind_Fault [simp]: "rbind (Fault e) f = Fault e"
  by (simp add: rbind_def)

lemma rbind_Diverge [simp]: "rbind Diverge f = Diverge"
  by (simp add: rbind_def)

lemma rbind_eq_Ok: "rbind m f = Ok y \<longleftrightarrow> (\<exists>x. m = Ok x \<and> f x = Ok y)"
  by (cases m) simp_all

lemma built_one_is_built:
  "rbind (KMeansIndex_ctor exact_collab [[0]] 1 [''branching'' \<mapsto> PInt 5] [])
         (buildIndex 1 exact_collab) = Ok built_one"
  by code_simp

declare kmeans_loop.simps [simp del]

lemma ctor_fields:
  assumes "KMeansIndex_ctor E inputData cols params rng = Ok ix"
  shows "\<exists>b v c own. get_param_int params ''iterations'' 11 = Ok v
            \<and> ix = \<lparr> branching_' = b,
            iterations_' = (if v < 0 then INT_MAX else v),
            centers_init_' = c,
            cb_index_' = lit_d E (2 / 5),
            dataset_' = inputData,
            ownDataset_' = own,
            size_' = length inputData,
            size_at_build_' = None,
            veclen_' = cols,
            root_' = None,
            indices_' = [],
            rng_' = rng \<rparr>"
proof -
  from assms obtain b where 1: "get_param_int params ''branching'' 32 = Ok b"
    unfolding KMeansIndex_ctor_def by (cases "get_param_int params ''branching'' 32") simp_all
  from assms 1 obtain v where 2: "get_param_int params ''iterations'' 11 = Ok v"
    unfolding KMeansIndex_ctor_def by (cases "get_param_int params ''iterations'' 11") simp_all
  from assms 1 2 obtain c where 3: "get_param_centers params ''centers_init'' FLANN_CENTERS_RANDOM = Ok c"
    unfolding KMeansIndex_ctor_def
    by (cases "get_param_centers params ''centers_init'' FLANN_CENTERS_RANDOM") simp_all
  from assms 1 2 3 obtain own where 4: "get_param_bool params ''copy_dataset'' False = Ok own"
    unfolding KMeansIndex_ctor_def
    by (cases "get_param_bool params ''copy_dataset'' False") (simp_all split: if_splits)
  from assms 1 2 3 4 show ?thesis
    unfolding KMeansIndex_ctor_def by (auto split: if_splits)
qed

text \<open>
  C9. The constructor never reads the \<open>cb_index\<close> option: it sets \<open>cb_index_ = 0.4\<close>
  whatever the parameters hold under that name. Here they are those of
  \<open>KMeansIndexParams()\<close> with \<open>cb_index = 0.2\<close>, and the index has \<open>cb_index_ = 0.4\<close>.
\<close>

theorem C9_ctor_ignores_cb_index_option:
  "rbind (KMeansIndex_ctor exact_collab [[0]] 1
            (KMeansIndexParams 32 11 FLANN_CENTERS_RANDOM (1 / 5)) [])
         (\<lambda>ix. Ok (cb_index_' ix)) = Ok (2 / 5)"
  by code_simp

subsection \<open>The refinement loop and its cap\<close>

lemma kmeans_loop_cap:
  "kmeans_loop E ds vl idx B iters st = Ok st' \<Longrightarrow> iteration st \<le> iters
     \<Longrightarrow> iteration st' \<le> iters \<and> (converged st' \<or> iteration st' = iters)"
proof (induction E ds vl idx B iters st rule: kmeans_loop.induct)
  case (1 E ds vl idx B iters st)
  show ?case
  proof (cases "\<not> converged st \<and> iteration st < iters")
    case True
    with "1.prems"(1) obtain st1 where
      it: "kmeans_iteration E ds vl idx B st = Ok st1"
      and lp: "kmeans_loop E ds vl idx B iters (st1 \<lparr> iteration := iteration st + 1 \<rparr>) = Ok st'"
      by (subst (asm) kmeans_loop.simps) (auto split: result.splits)
    have "iteration (st1 \<lparr> iteration := iteration st + 1 \<rparr>) \<le> iters" using True by simp
    from "1.IH" [OF True it lp this] show ?thesis .
  next
    case False
    with "1.prems" have "st' = st" by (subst (asm) kmeans_loop.simps) auto
    with False "1.prems" show ?thesis by auto
  qed
qed

text \<open>
  C7, as the code has it. The constructor reads \<open>iterations\<close> with the default 11: an
  absent option gives the cap 11, a negative one the cap \<open>INT_MAX = 2147483647\<close>, any
  other value itself. The refinement loop, started at iteration 0, makes at most that
  many passes, and stops earlier only when the assignment has converged.
\<close>

theorem C7_iterations_cap:
  assumes "KMeansIndex_ctor E inputData cols params rng = Ok ix"
    and "kmeans_loop E ds vl idx B (iterations_' ix) st = Ok st'"
    and "iteration st = 0"
  shows "(params ''iterations'' = None \<longrightarrow> iterations_' ix = 11)
       \<and> (\<forall>v. params ''iterations'' = Some (PInt v)
              \<longrightarrow> iterations_' ix = (if v < 0 then 2147483647 else v))
       \<and> iteration st' \<le> iterations_' ix
       \<and> (converged st' \<or> iteration st' = iterations_' ix)"
proof -
  from ctor_fields [OF assms(1)] obtain v where
    v: "get_param_int params ''iterations'' 11 = Ok v"
    and i: "iterations_' ix = (if v < 0 then INT_MAX else v)" by auto
  have a: "params ''iterations'' = None \<longrightarrow> iterations_' ix = 11"
    using v i by (auto simp: get_param_int_def)
  have b: "\<forall>w. params ''iterations'' = Some (PInt w)
              \<longrightarrow> iterations_' ix = (if w < 0 then 2147483647 else w)"
    using v i by (auto simp: get_param_int_def INT_MAX_def)
  have "0 \<le> iterations_' ix" using i by (auto simp: INT_MAX_def)
  with kmeans_loop_cap [OF assms(2)] assms(3)
  have "iteration st' \<le> iterations_' ix \<and> (converged st' \<or> iteration st' = iterations_' ix)"
    by simp
  with a b show ?thesis by blast
qed

text \<open>
  Witness for C7: the index constructed over the point \<open>0\<close> without the \<open>iterations\<close>
  option has the cap 11, and the loop over the points \<open>0\<close> and \<open>4\<close> with two centers
  converges in its first pass.
\<close>

theorem C7_iterations_cap_witness:
  "iterations_' (built_one \<lparr> size_at_build_' := None, root_' := None, indices_' := [] \<rparr>) = 11
     \<and> iteration (two_points_state \<lparr> converged := True, iteration := 1 \<rparr>) \<le> 11"
proof -
  let ?ix = "built_one \<lparr> size_at_build_' := None, root_' := None, indices_' := [] \<rparr>"
  let ?p = "[''branching'' \<mapsto> PInt 5]"
  let ?st = "two_points_state \<lparr> converged := True, iteration := 1 \<rparr>"
  have 1: "KMeansIndex_ctor exact_collab [[0]] 1 ?p [] = Ok ?ix"
    by code_simp
  have 2: "kmeans_loop exact_collab [[0], [4]] 1 [0, 1] 2 (iterations_' ?ix) two_points_state = Ok ?st"
    by code_simp
  have 3: "iteration two_points_state = 0" by code_simp
  have 4: "?p ''iterations'' = None" by simp
  from C7_iterations_cap [OF 1 2 3] 4 show ?thesis by auto
qed

text \<open>
  Counterexample to C7 as stated: an index constructed with no \<open>iterations\<close> option does
  not refine until convergence. Its loop, entered after the 11th pass with an assignment
  that has not converged, makes no further pass and returns that state.
\<close>

theorem C7_absent_iterations_stops_at_11:
  "rbind (KMeansIndex_ctor exact_collab [[0], [4]] 1 Map.empty [])
         (\<lambda>ix. kmeans_loop exact_collab [[0], [4]] 1 [0, 1] 2 (iterations_' ix)
                  (two_points_state \<lparr> converged := False, iteration := 11 \<rparr>))
     = Ok (two_points_state \<lparr> converged := False, iteration := 11 \<rparr>)"
  by code_simp

subsection \<open>Node statistics\<close>

lemma mapM_Fault_all:
  assumes "\<And>x. f x = Fault e"
  shows "mapM f xs = Ok [] \<and> xs = [] \<or> mapM f xs = Fault e"
  by (cases xs) (simp_all add: assms)

lemma mapM_Ok_all:
  assumes "\<And>x. \<exists>y. f x = Ok y"
  shows "\<exists>ys. mapM f xs = Ok ys"
proof (induction xs)
  case Nil
  then show ?case by simp
next
  case (Cons x xs)
  from assms obtain y where "f x = Ok y" by blast
  with Cons show ?case by auto
qed

lemma row_ok_upto: "n \<le> length ds \<Longrightarrow> list_all (row_ok ds) (map int [0..<n])"
  by (simp add: list_all_iff row_ok_def)

lemma computeNodeStatistics_empty:
  assumes "\<And>x. div_d E x 0 = Fault DivisionByZero"
  shows "computeNodeStatistics E ix node [] = Fault DivisionByZero"
proof -
  have "mapM (\<lambda>m. div_d E m 0) (vec_zero E (veclen_' ix)) = Ok [] \<or>
        mapM (\<lambda>m. div_d E m 0) (vec_zero E (veclen_' ix)) = Fault DivisionByZero"
    using mapM_Fault_all [of "\<lambda>m. div_d E m 0" DivisionByZero] assms by blast
  then show ?thesis
    unfolding computeNodeStatistics_def by (auto simp: assms)
qed

lemma computeNodeStatistics_nonempty:
  assumes "\<And>x n. n \<noteq> 0 \<Longrightarrow> \<exists>y. div_d E x n = Ok y"
    and "idx \<noteq> []" and "list_all (row_ok (dataset_' ix)) idx"
  shows "\<exists>node'. computeNodeStatistics E ix node idx = Ok node'"
proof -
  have n: "int (length idx) \<noteq> 0" using assms(2) by simp
  obtain mean where m: "mapM (\<lambda>m. div_d E m (int (length idx)))
      (foldl (\<lambda>mean i. vec_add E (veclen_' ix) mean (row (dataset_' ix) i))
             (vec_zero E (veclen_' ix)) idx) = Ok mean"
    using mapM_Ok_all [of "\<lambda>m. div_d E m (int (length idx))"] assms(1) [OF n] by blast
  show ?thesis
    unfolding computeNodeStatistics_def Let_def using assms(3) m assms(1) [OF n]
    by (auto simp: rbind_eq_Ok)
qed

text \<open>
  C10. Let the arithmetic fault on a zero divisor and on no other. Building the index over
  an empty dataset then faults with a division by zero (the sums of the root statistics
  are divided by the number of points, zero), and for a dataset of at least one point the
  root statistics are computed without a fault.
\<close>

theorem C10_build_divides_by_point_count:
  assumes "\<And>x. div_d E x 0 = Fault DivisionByZero"
    and "\<And>x n. n \<noteq> 0 \<Longrightarrow> \<exists>y. div_d E x n = Ok y"
    and "2 \<le> branching_' ix"
    and "size_' ix = length (dataset_' ix)"
  shows "(size_' ix = 0 \<longrightarrow> buildIndex fuel E ix = Fault DivisionByZero)
       \<and> (1 \<le> size_' ix \<longrightarrow>
            (\<exists>rnode. computeNodeStatistics E ix (KMeansNode [] (lit_d E 0) (lit_d E 0) 0 [] [] 0)
                        (map int [0..<size_' ix]) = Ok rnode))"
proof (intro conjI impI)
  assume "size_' ix = 0"
  then show "buildIndex fuel E ix = Fault DivisionByZero"
    unfolding buildIndex_def using assms(3) computeNodeStatistics_empty [OF assms(1)]
    by (simp add: Let_def)
next
  assume "1 \<le> size_' ix"
  then have "map int [0..<size_' ix] \<noteq> []" by simp
  moreover have "list_all (row_ok (dataset_' ix)) (map int [0..<size_' ix])"
    using assms(4) row_ok_upto [of "size_' ix" "dataset_' ix"] by simp
  ultimately show "\<exists>rnode. computeNodeStatistics E ix (KMeansNode [] (lit_d E 0) (lit_d E 0) 0 [] [] 0)
                        (map int [0..<size_' ix]) = Ok rnode"
    using computeNodeStatistics_nonempty [OF assms(2)] by blast
qed

lemma exact_div0: "div_d exact_collab x 0 = Fault DivisionByZero"
  by (simp add: exact_collab_def)

lemma exact_divn: "n \<noteq> 0 \<Longrightarrow> \<exists>y. div_d exact_collab x n = Ok y"
  by (simp add: exact_collab_def)

text \<open>
  Witness for C10, in exact arithmetic: the build over no point and the root statistics
  over the one point \<open>0\<close>.
\<close>

theorem C10_build_divides_by_point_count_witness:
  "buildIndex 1 exact_collab (built_one \<lparr> dataset_' := [], size_' := 0 \<rparr>) = Fault DivisionByZero
     \<and> (\<exists>rnode. computeNodeStatistics exact_collab built_one (KMeansNode [] 0 0 0 [] [] 0) [0] = Ok rnode)"
proof -
  let ?e = "built_one \<lparr> dataset_' := [], size_' := 0 \<rparr>"
  have b0: "2 \<le> branching_' ?e" "size_' ?e = length (dataset_' ?e)" "size_' ?e = 0"
    by (simp_all add: built_one_def)
  have b1: "2 \<le> branching_' built_one" "size_' built_one = length (dataset_' built_one)"
    "1 \<le> size_' built_one" "map int [0..<size_' built_one] = [0]"
    by (simp_all add: built_one_def)
  have l: "lit_d exact_collab 0 = 0" by (simp add: exact_collab_def)
  from C10_build_divides_by_point_count [OF exact_div0 exact_divn b0(1) b0(2), of 1] b0(3)
  have 1: "buildIndex 1 exact_collab ?e = Fault DivisionByZero" by blast
  from C10_build_divides_by_point_count [OF exact_div0 exact_divn b1(1) b1(2), of 1] b1(3) b1(4) l
  have 2: "\<exists>rnode. computeNodeStatistics exact_collab built_one (KMeansNode [] 0 0 0 [] [] 0) [0] = Ok rnode"
    by simp
  from 1 2 show ?thesis by blast
qed

subsection \<open>Adding points\<close>

lemma foldM_invariant:
  assumes "foldM f xs s = Ok t" and "P s"
    and "\<And>u x v. P u \<Longrightarrow> f u x = Ok v \<Longrightarrow> P v"
  shows "P t"
  using assms(1,2)
proof (induction xs arbitrary: s)
  case Nil
  then show ?case by simp
next
  case (Cons x xs)
  from Cons.prems(1) obtain v where v: "f s x = Ok v" and r: "foldM f xs v = Ok t"
    by (auto simp: rbind_eq_Ok)
  from assms(3) [OF Cons.prems(2) v] have "P v" .
  from Cons.IH [OF r this] show ?case .
qed



lemma exact_ops:
  "less_d exact_collab a b \<longleftrightarrow> a < b"
  "le_d exact_collab a b \<longleftrightarrow> a \<le> b"
  "add_d exact_collab a b = a + b"
  "sub_d exact_collab a b = a - b"
  "mul_d exact_collab a b = a * b"
  "lit_d exact_collab q = of_rat q"
  "distance_' exact_collab = sq_euclid"
  by (simp_all add: exact_collab_def)




subsection \<open>The tree that clustering builds\<close>

lemma foldl_upt_invariant:
  assumes "P 0 s" and "\<And>i t. i < n \<Longrightarrow> P i t \<Longrightarrow> P (Suc i) (f t i)"
  shows "P n (foldl f s [0..<n])"
  using assms(2)
proof (induction n)
  case 0
  then show ?case using assms(1) by simp
next
  case (Suc n)
  have "P n (foldl f s [0..<n])" using Suc.IH Suc.prems by simp
  then show ?case using Suc.prems [of n] by simp
qed

lemma nearest_center_bound: "fst (nearest_center E vl x dc B) < max 1 B"
proof -
  have "fst (foldl (\<lambda>(best, sq_dist) j.
              let new_sq_dist = distance_' E x (dc ! j) vl
              in if less_d E new_sq_dist sq_dist then (j, new_sq_dist) else (best, sq_dist)) s js) < max 1 B"
    if "fst s < max 1 B" "set js \<subseteq> {1..<B}" for s js
    using that by (induction js arbitrary: s) (auto simp: Let_def split: prod.splits)
  then show ?thesis unfolding nearest_center_def by simp
qed

lemma nearest_center_less: "0 < B \<Longrightarrow> fst (nearest_center E vl x dc B) < B"
  using nearest_center_bound [of E vl x dc B] by simp

lemma count_list_update:
  assumes "i < length xs"
  shows "int (count_list (xs[i := y]) c)
           = int (count_list xs c) - (if xs ! i = c then 1 else 0) + (if y = c then 1 else 0)"
proof -
  have m: "mset (xs[i := y]) = add_mset y (mset xs - {#xs ! i#})"
    using assms by (rule mset_update)
  have "xs ! i \<in># mset xs" using assms by simp
  then have "1 \<le> Multiset.count (mset xs) (xs ! i)" by (simp add: Suc_le_eq)
  then have "int (Multiset.count (mset (xs[i := y])) c)
           = int (Multiset.count (mset xs) c) - (if xs ! i = c then 1 else 0) + (if y = c then 1 else 0)"
    unfolding m by auto
  then show ?thesis by (simp add: count_mset)
qed

lemma count_list_take_Suc:
  "i < length xs \<Longrightarrow> count_list (take (Suc i) xs) c = count_list (take i xs) c + (if xs ! i = c then 1 else 0)"
  by (simp add: take_Suc_conv_app_nth)

lemma assign_points_counts:
  fixes E :: "('d, 'r) collab"
  assumes "0 < B"
  shows "counts_ok (length idx) B (belongs_to (assign_points E ds vl idx dc B))
           (count (assign_points E ds vl idx dc B))"
proof -
  let ?n = "length idx"
  let ?P = "\<lambda>i (s :: nat list \<times> 'd list \<times> int list). case s of (bt, rad, cnt) \<Rightarrow>
              length bt = ?n \<and> (\<forall>k<i. bt ! k < B) \<and> length cnt = B
              \<and> (\<forall>c<B. cnt ! c = int (count_list (take i bt) c))"
  have "?P ?n (foldl (assign_step E ds vl idx dc B)
                 (replicate ?n 0, replicate B (lit_d E 0), replicate B 0) [0..<?n])"
  proof (rule foldl_upt_invariant [where P = ?P])
    show "?P 0 (replicate ?n 0, replicate B (lit_d E 0), replicate B 0)" by simp
  next
    fix i t
    assume i: "i < ?n" and t: "?P i t"
    obtain bt rad cnt where s: "t = (bt, rad, cnt)" by (cases t)
    obtain c0 d0 where nc: "nearest_center E vl (row ds (idx ! i)) dc B = (c0, d0)"
      by (cases "nearest_center E vl (row ds (idx ! i)) dc B")
    have c0: "c0 < B" using nearest_center_less [OF assms, of E vl "row ds (idx ! i)" dc] nc by simp
    from t s have inv: "length bt = ?n" "\<forall>k<i. bt ! k < B" "length cnt = B"
      "\<forall>c<B. cnt ! c = int (count_list (take i bt) c)" by auto
    have "\<forall>k<Suc i. bt[i := c0] ! k < B"
      using inv(1,2) i c0 by (auto simp: nth_list_update less_Suc_eq)
    moreover have "\<forall>c<B. cnt[c0 := cnt ! c0 + 1] ! c = int (count_list (take (Suc i) (bt[i := c0])) c)"
      using inv i c0 by (auto simp: count_list_take_Suc nth_list_update)
    ultimately show "?P (Suc i) (assign_step E ds vl idx dc B t i)"
      using inv(1,3) by (simp add: s assign_step_def nc)
  qed
  then show ?thesis
    unfolding assign_points_def counts_ok_def by (auto split: prod.splits)
qed

lemma reassign_counts:
  fixes E :: "('d, 'r) collab"
  assumes "0 < B" and "counts_ok (length idx) B bt cnt"
    and "foldl (reassign_step E ds vl idx dc B) (bt, rad, cnt, conv) [0..<length idx]
           = (bt', rad', cnt', conv')"
  shows "counts_ok (length idx) B bt' cnt'"
proof -
  let ?n = "length idx"
  let ?P = "\<lambda>(i::nat) (s :: nat list \<times> 'd list \<times> int list \<times> bool).
              case s of (bt, rad, cnt, conv) \<Rightarrow> counts_ok ?n B bt cnt"
  have "?P ?n (foldl (reassign_step E ds vl idx dc B) (bt, rad, cnt, conv) [0..<?n])"
  proof (rule foldl_upt_invariant [where P = ?P])
    show "?P 0 (bt, rad, cnt, conv)" using assms(2) by simp
  next
    fix i t
    assume i: "i < ?n" and t: "?P i t"
    obtain b r c v where s: "t = (b, r, c, v)" by (cases t)
    obtain c0 d0 where nc: "nearest_center E vl (row ds (idx ! i)) dc B = (c0, d0)"
      by (cases "nearest_center E vl (row ds (idx ! i)) dc B")
    have c0: "c0 < B" using nearest_center_less [OF assms(1), of E vl "row ds (idx ! i)" dc] nc by simp
    from t s have inv: "length b = ?n" "\<forall>k<?n. b ! k < B" "length c = B"
      "\<forall>x<B. c ! x = int (count_list b x)" by (auto simp: counts_ok_def)
    have bi: "b ! i < B" using inv(2) i by simp
    have "counts_ok ?n B (b[i := c0]) ((c[b ! i := c ! (b ! i) - 1])
             [c0 := (c[b ! i := c ! (b ! i) - 1]) ! c0 + 1])"
      unfolding counts_ok_def using inv i c0 bi
      by (auto simp: nth_list_update count_list_update)
    then show "?P (Suc i) (reassign_step E ds vl idx dc B t i)"
      using t s by (auto simp: reassign_step_def nc Let_def)
  qed
  with assms(3) show ?thesis by simp
qed

lemma find_donor_Ok:
  "find_donor cnt B j steps = Ok j' \<Longrightarrow> j < B \<Longrightarrow> j' < B \<and> 1 < cnt ! j'"
proof (induction steps arbitrary: j)
  case 0
  then show ?case by simp
next
  case (Suc steps)
  show ?case
  proof (cases "cnt ! j \<le> 1")
    case True
    with Suc.prems have "find_donor cnt B ((j + 1) mod B) steps = Ok j'" by simp
    moreover have "(j + 1) mod B < B" using Suc.prems(2) by simp
    ultimately show ?thesis using Suc.IH by blast
  next
    case False
    with Suc.prems show ?thesis by simp
  qed
qed

lemma recover_cluster_counts:
  assumes "counts_ok n B bt cnt" and "i < B"
    and "recover_cluster B (bt, cnt, conv) i = Ok (bt', cnt', conv')"
  shows "counts_ok n B bt' cnt' \<and> 1 \<le> cnt' ! i \<and> (\<forall>c<B. 1 \<le> cnt ! c \<longrightarrow> 1 \<le> cnt' ! c)"
proof (cases "cnt ! i = 0")
  case False
  from assms(1,2) have "cnt ! i = int (count_list bt i)" by (simp add: counts_ok_def)
  with False have "1 \<le> cnt ! i" by simp
  with assms(3) False assms(1) show ?thesis by (simp add: recover_cluster_def)
next
  case True
  from assms(1) have inv: "length bt = n" "\<forall>k<n. bt ! k < B" "length cnt = B"
    "\<forall>x<B. cnt ! x = int (count_list bt x)" by (auto simp: counts_ok_def)
  from assms(3) True obtain j where
    d: "find_donor cnt B ((i + 1) mod B) B = Ok j"
    and r: "(case find (\<lambda>k. bt ! k = j) [0..<length bt] of
              Some k \<Rightarrow> (let cnt1 = cnt[j := cnt ! j - 1]
                         in Ok (bt[k := i], cnt1[i := cnt1 ! i + 1], False))
            | None \<Rightarrow> Ok (bt, cnt, False)) = Ok (bt', cnt', conv')"
    by (auto simp: recover_cluster_def rbind_eq_Ok)
  have "(i + 1) mod B < B" using assms(2) by simp
  from find_donor_Ok [OF d this] have j: "j < B" "1 < cnt ! j" by simp_all
  then have ji: "j \<noteq> i" using True by auto
  have "0 < count_list bt j" using inv(4) j by auto
  then have "j \<in> set bt" by (metis count_list_0_iff less_numeral_extra(3))
  then obtain k0 where "k0 < length bt" "bt ! k0 = j" by (auto simp: in_set_conv_nth)
  then have "find (\<lambda>k. bt ! k = j) [0..<length bt] \<noteq> None"
    by (auto simp: find_None_iff)
  then obtain k where f: "find (\<lambda>k. bt ! k = j) [0..<length bt] = Some k" by auto
  then have k: "k < length bt" "bt ! k = j" by (auto simp: find_Some_iff)
  from r f have res: "bt' = bt[k := i]" "cnt' = (cnt[j := cnt ! j - 1])[i := (cnt[j := cnt ! j - 1]) ! i + 1]"
    by (simp_all add: Let_def)
  have "counts_ok n B bt' cnt'"
    unfolding counts_ok_def res using inv k j ji assms(2)
    by (auto simp: nth_list_update count_list_update)
  moreover have "1 \<le> cnt' ! i" unfolding res using inv(3) assms(2) ji True by simp
  moreover have "\<forall>c<B. 1 \<le> cnt ! c \<longrightarrow> 1 \<le> cnt' ! c"
    unfolding res using inv(3) j assms(2) True by (auto simp: nth_list_update)
  ultimately show ?thesis by blast
qed

lemma recover_all_counts:
  assumes "counts_ok n B bt cnt" and "set js \<subseteq> {0..<B}"
    and "recover_all B js (bt, cnt, conv) = Ok (bt', cnt', conv')"
  shows "counts_ok n B bt' cnt' \<and> (\<forall>c\<in>set js. 1 \<le> cnt' ! c)
           \<and> (\<forall>c<B. 1 \<le> cnt ! c \<longrightarrow> 1 \<le> cnt' ! c)"
  using assms
proof (induction js arbitrary: bt cnt conv)
  case Nil
  then show ?case by simp
next
  case (Cons i js)
  from Cons.prems(3) obtain t where
    1: "recover_cluster B (bt, cnt, conv) i = Ok t" and 2: "recover_all B js t = Ok (bt', cnt', conv')"
    by (auto simp: rbind_eq_Ok)
  obtain b1 c1 v1 where t: "t = (b1, c1, v1)" by (cases t)
  have i: "i < B" using Cons.prems(2) by simp
  from recover_cluster_counts [OF Cons.prems(1) i 1 [unfolded t]]
  have s1: "counts_ok n B b1 c1" "1 \<le> c1 ! i" "\<forall>c<B. 1 \<le> cnt ! c \<longrightarrow> 1 \<le> c1 ! c" by auto
  have "set js \<subseteq> {0..<B}" using Cons.prems(2) by simp
  from Cons.IH [OF s1(1) this 2 [unfolded t]]
  have s2: "counts_ok n B bt' cnt'" "\<forall>c\<in>set js. 1 \<le> cnt' ! c" "\<forall>c<B. 1 \<le> c1 ! c \<longrightarrow> 1 \<le> cnt' ! c"
    by auto
  from s1 s2 i show ?case by auto
qed

lemma kmeans_iteration_counts:
  assumes "0 < B" and "counts_ok (length idx) B (belongs_to st) (count st)"
    and "kmeans_iteration E ds vl idx B st = Ok st'"
  shows "counts_ok (length idx) B (belongs_to st') (count st') \<and> (\<forall>c<B. 1 \<le> count st' ! c)"
proof -
  from assms(3) obtain dc where dc: "new_centers E ds vl idx B (belongs_to st) (count st) = Ok dc"
    by (auto simp: kmeans_iteration_def rbind_eq_Ok)
  obtain bt rad cnt conv where
    f: "foldl (reassign_step E ds vl idx dc B)
          (belongs_to st, replicate B (lit_d E 0), count st, True) [0..<length idx] = (bt, rad, cnt, conv)"
    using prod_cases4 by blast
  from assms(3) dc f obtain bt' cnt' conv' where
    r: "recover_all B [0..<B] (bt, cnt, conv) = Ok (bt', cnt', conv')"
    and st': "belongs_to st' = bt'" "count st' = cnt'"
    by (auto simp: kmeans_iteration_def rbind_eq_Ok)
  from reassign_counts [OF assms(1,2) f] have "counts_ok (length idx) B bt cnt" .
  from recover_all_counts [OF this _ r] show ?thesis unfolding st' by auto
qed

lemma kmeans_loop_counts:
  "kmeans_loop E ds vl idx B iters st = Ok st' \<Longrightarrow> 0 < B
     \<Longrightarrow> counts_ok (length idx) B (belongs_to st) (count st)
     \<Longrightarrow> counts_ok (length idx) B (belongs_to st') (count st')
         \<and> ((\<forall>c<B. 1 \<le> count st ! c) \<or> (\<not> converged st \<and> iteration st < iters)
              \<longrightarrow> (\<forall>c<B. 1 \<le> count st' ! c))"
proof (induction E ds vl idx B iters st rule: kmeans_loop.induct)
  case (1 E ds vl idx B iters st)
  show ?case
  proof (cases "\<not> converged st \<and> iteration st < iters")
    case True
    with "1.prems"(1) obtain st1 where
      it: "kmeans_iteration E ds vl idx B st = Ok st1"
      and lp: "kmeans_loop E ds vl idx B iters (st1 \<lparr> iteration := iteration st + 1 \<rparr>) = Ok st'"
      by (subst (asm) kmeans_loop.simps) (auto split: result.splits)
    from kmeans_iteration_counts [OF "1.prems"(2,3) it]
    have c1: "counts_ok (length idx) B (belongs_to st1) (count st1)" "\<forall>c<B. 1 \<le> count st1 ! c"
      by auto
    from "1.IH" [OF True it lp "1.prems"(2)] c1 show ?thesis by simp
  next
    case False
    with "1.prems" have "st' = st" by (subst (asm) kmeans_loop.simps) auto
    with False "1.prems" show ?thesis by auto
  qed
qed


lemma swap_at_length [simp]: "length (swap_at xs i j) = length xs"
  by (simp add: swap_at_def)

lemma swap_at_mset: "i < length xs \<Longrightarrow> j < length xs \<Longrightarrow> mset (swap_at xs i j) = mset xs"
  unfolding swap_at_def by (simp add: mset_swap)

lemma swap_at_nth:
  "i < length xs \<Longrightarrow> j < length xs \<Longrightarrow>
     swap_at xs i j ! k = (if k = j then xs ! i else if k = i then xs ! j else xs ! k)"
  unfolding swap_at_def by (auto simp: nth_list_update)

lemma part_inv_step:
  assumes "part_inv n idx bt start c i idx' bt' e" and "i < n"
  shows "if bt' ! i = c
         then part_inv n idx bt start c (Suc i) (swap_at idx' i e) (swap_at bt' i e) (Suc e)
         else part_inv n idx bt start c (Suc i) idx' bt' e"
proof (cases "bt' ! i = c")
  case False
  have "c < bt' ! i" if "e \<le> i"
  proof -
    from assms that have "start \<le> i" by (simp add: part_inv_def)
    with assms have "c \<le> bt' ! i" by (simp add: part_inv_def)
    with False show ?thesis by simp
  qed
  with assms False show ?thesis
    by (auto simp: part_inv_def less_Suc_eq)
next
  case True
  from assms have len: "length idx' = n" "length bt' = n" by (simp_all add: part_inv_def)
  have si: "start \<le> i"
  proof (rule ccontr)
    assume "\<not> start \<le> i"
    with assms have "bt' ! i < c" by (simp add: part_inv_def)
    with True show False by simp
  qed
  with assms have ei: "e \<le> i" by (simp add: part_inv_def max_def)
  with assms(2) have en: "e < n" by simp
  have m: "mset (swap_at idx' i e) = mset idx" "mset (swap_at bt' i e) = mset bt"
    using assms len en by (simp_all add: swap_at_mset part_inv_def)
  have a: "\<forall>k<start. swap_at bt' i e ! k < c"
    using assms len en si ei by (auto simp: swap_at_nth part_inv_def)
  have b: "\<forall>k. start \<le> k \<and> k < Suc e \<longrightarrow> swap_at bt' i e ! k = c"
    using assms len en si ei True by (auto simp: swap_at_nth part_inv_def less_Suc_eq)
  have c: "\<forall>k. Suc e \<le> k \<and> k < Suc i \<longrightarrow> c < swap_at bt' i e ! k"
    using assms len en si ei True by (auto simp: swap_at_nth part_inv_def less_Suc_eq)
  have d: "\<forall>k. start \<le> k \<and> k < n \<longrightarrow> c \<le> swap_at bt' i e ! k"
    using assms len en si ei True by (auto simp: swap_at_nth part_inv_def)
  have e: "\<forall>k<start. swap_at idx' i e ! k = idx ! k"
    using assms len en si ei by (auto simp: swap_at_nth part_inv_def)
  have "part_inv n idx bt start c (Suc i) (swap_at idx' i e) (swap_at bt' i e) (Suc e)"
    unfolding part_inv_def using len m a b c d e si ei assms(1)
    by (simp add: part_inv_def max_def)
  with True show ?thesis by simp
qed

lemma partition_cluster_inv:
  fixes E :: "('d, 'r) collab"
  assumes "length idx = length bt" and "start \<le> length bt"
    and "\<forall>k<start. bt ! k < c"
    and "\<forall>k. start \<le> k \<and> k < length bt \<longrightarrow> c \<le> bt ! k"
    and "partition_cluster E ds vl center c idx bt start = (idx', bt', e, var)"
  shows "part_inv (length bt) idx bt start c (length bt) idx' bt' e"
proof -
  let ?n = "length bt"
  let ?P = "\<lambda>i (s :: int list \<times> nat list \<times> nat \<times> 'd).
              case s of (idx', bt', e, var) \<Rightarrow> part_inv ?n idx bt start c i idx' bt' e"
  have "?P ?n (foldl (partition_step E ds vl center c) (idx, bt, start, lit_d E 0) [0..<?n])"
  proof (rule foldl_upt_invariant [where P = ?P])
    show "?P 0 (idx, bt, start, lit_d E 0)"
      using assms(1-4) by (simp add: part_inv_def)
  next
    fix i t
    assume i: "i < ?n" and t: "?P i t"
    obtain a b e v where s: "t = (a, b, e, v)" using prod_cases4 by blast
    from part_inv_step [of ?n idx bt start c i a b e] t s i
    show "?P (Suc i) (partition_step E ds vl center c t i)"
      by (auto simp: partition_step_def s)
  qed
  with assms(1,5) show ?thesis by (simp add: partition_cluster_def)
qed

lemma partition_cluster_props:
  fixes E :: "('d, 'r) collab"
  assumes "length idx = length bt" and "start \<le> length bt"
    and "\<forall>k<start. bt ! k < c"
    and "\<forall>k. start \<le> k \<and> k < length bt \<longrightarrow> c \<le> bt ! k"
    and "partition_cluster E ds vl center c idx bt start = (idx', bt', e, var)"
  shows "length idx' = length bt'" "length bt' = length bt" "mset idx' = mset idx" "mset bt' = mset bt"
    "start \<le> e" "e \<le> length bt'"
    "\<forall>k<e. bt' ! k < Suc c"
    "\<forall>k. e \<le> k \<and> k < length bt' \<longrightarrow> Suc c \<le> bt' ! k"
    "c \<in> set bt \<longrightarrow> start < e"
    "mset (drop start idx') = mset (drop start idx)"
proof -
  let ?n = "length bt"
  from partition_cluster_inv [OF assms]
  have inv: "length idx' = ?n" "length bt' = ?n" "mset idx' = mset idx" "mset bt' = mset bt"
     "start \<le> e" "e \<le> max start ?n"
     "\<forall>k<start. bt' ! k < c"
     "\<forall>k. start \<le> k \<and> k < e \<longrightarrow> bt' ! k = c"
     "\<forall>k. e \<le> k \<and> k < ?n \<longrightarrow> c < bt' ! k"
     "\<forall>k<start. idx' ! k = idx ! k"
    by (simp_all add: part_inv_def)
  have "take start idx' = take start idx"
    using inv(1,10) assms(1,2) by (simp add: list_eq_iff_nth_eq)
  moreover have "mset (take start idx') + mset (drop start idx') = mset (take start idx) + mset (drop start idx)"
    using inv(3) by (metis append_take_drop_id mset_append)
  ultimately show "mset (drop start idx') = mset (drop start idx)" by simp
  show "length idx' = length bt'" "length bt' = length bt" "mset idx' = mset idx" "mset bt' = mset bt"
    "start \<le> e" using inv by simp_all
  show en: "e \<le> length bt'" using inv(2,6) assms(2) by (simp add: max_def)
  show "\<forall>k<e. bt' ! k < Suc c"
  proof (intro allI impI)
    fix k assume "k < e"
    then show "bt' ! k < Suc c"
      using inv(7,8) by (cases "k < start") (auto simp: less_Suc_eq)
  qed
  show "\<forall>k. e \<le> k \<and> k < length bt' \<longrightarrow> Suc c \<le> bt' ! k"
    using inv(2,9) by (auto simp: Suc_le_eq)
  show "c \<in> set bt \<longrightarrow> start < e"
  proof
    assume "c \<in> set bt"
    then have "c \<in> set bt'" using inv(4) by (metis set_mset_mset)
    then obtain k where k: "k < ?n" "bt' ! k = c" using inv(2) by (auto simp: in_set_conv_nth)
    have "\<not> k < start" using inv(7) k by auto
    moreover have "\<not> e \<le> k" using inv(9) k by auto
    ultimately show "start < e" by simp
  qed
qed


lemma build_children_props:
  fixes E :: "('d, 'r) collab"
  assumes rec: "\<And>rng child slice child' rng'.
       rec rng child slice = Ok (child', rng') \<Longrightarrow> childs child = [] \<Longrightarrow> node_ok B D slice child'"
  shows "build_children rec E ds vl st [c0..<B] idx bt start rng = Ok (children, rng')
     \<Longrightarrow> length idx = length bt \<Longrightarrow> start \<le> length bt
     \<Longrightarrow> \<forall>k<start. bt ! k < c0
     \<Longrightarrow> \<forall>k. start \<le> k \<and> k < length bt \<longrightarrow> c0 \<le> bt ! k
     \<Longrightarrow> \<forall>k<length bt. bt ! k < B
     \<Longrightarrow> c0 \<le> B
     \<Longrightarrow> length children = B - c0
         \<and> list_all (tree_ok B D) children
         \<and> sum_list (map node_size children) = int (length bt - start)
         \<and> mset (concat (map leaf_ids children)) = mset (drop start idx)
         \<and> ((\<forall>c. c0 \<le> c \<and> c < B \<longrightarrow> c \<in> set bt)
              \<longrightarrow> list_all (\<lambda>ch. 1 \<le> node_size ch \<and> leaf_ids ch \<noteq> []) children)"
proof (induction "B - c0" arbitrary: c0 idx bt start rng children rng')
  case 0
  then have c0: "c0 = B" by simp
  with "0.prems"(1) have ch: "children = []" by simp
  have "\<not> start < length bt"
  proof
    assume "start < length bt"
    with "0.prems"(5,6) c0 have "B \<le> bt ! start" "bt ! start < B" by auto
    then show False by simp
  qed
  with "0.prems"(2,3) have "start = length bt" "drop start idx = []" by simp_all
  with ch c0 show ?case by simp
next
  case (Suc m)
  then have c0: "c0 < B" by simp
  then have up: "[c0..<B] = c0 # [Suc c0..<B]" by (simp add: upt_conv_Cons)
  obtain idx1 bt1 e var where
    pc: "partition_cluster E ds vl (dcenters st ! c0) c0 idx bt start = (idx1, bt1, e, var)"
    using prod_cases4 by blast
  from Suc.prems(1) obtain variance child rng1 rest rng2 where
    dv: "div_d E var (count st ! c0) = Ok variance"
    and rc: "rec rng (KMeansNode (dcenters st ! c0) (radiuses st ! c0) variance 0 [] [] 0)
               (take (e - start) (drop start idx1)) = Ok (child, rng1)"
    and bc: "build_children rec E ds vl st [Suc c0..<B] idx1 bt1 e rng1 = Ok (rest, rng2)"
    and res: "children = child # rest"
    unfolding up by (auto simp: pc rbind_eq_Ok)
  note pp = partition_cluster_props [OF Suc.prems(2-5) pc]
  let ?slice = "take (e - start) (drop start idx1)"
  have ls: "length ?slice = e - start" using pp(1,2,5,6) by simp
  from rec [OF rc] have nk: "node_ok B D ?slice child" by simp
  have b1: "\<forall>k<length bt1. bt1 ! k < B"
  proof (intro allI impI)
    fix k assume "k < length bt1"
    then have "bt1 ! k \<in> set bt1" by simp
    then have "bt1 ! k \<in> set bt" using pp(4) by (metis set_mset_mset)
    then show "bt1 ! k < B" using Suc.prems(6) by (auto simp: in_set_conv_nth)
  qed
  have m: "m = B - Suc c0" using Suc.hyps(2) by simp
  from Suc.hyps(1) [OF m bc pp(1) pp(6) pp(7) pp(8) b1] c0
  have ih: "length rest = B - Suc c0" "list_all (tree_ok B D) rest"
    "sum_list (map node_size rest) = int (length bt1 - e)"
    "mset (concat (map leaf_ids rest)) = mset (drop e idx1)"
    "(\<forall>c. Suc c0 \<le> c \<and> c < B \<longrightarrow> c \<in> set bt1)
        \<longrightarrow> list_all (\<lambda>ch. 1 \<le> node_size ch \<and> leaf_ids ch \<noteq> []) rest"
    by simp_all
  have 1: "length children = B - c0" using res ih(1) c0 by simp
  have 2: "list_all (tree_ok B D) children" using res ih(2) nk by (simp add: node_ok_def)
  have 3: "sum_list (map node_size children) = int (length bt - start)"
    using res ih(3) nk ls pp(2,5,6) by (simp add: node_ok_def)
  have "drop start idx1 = ?slice @ drop e idx1"
  proof -
    have "drop e idx1 = drop (e - start) (drop start idx1)" using pp(5) by simp
    then have "?slice @ drop e idx1 = take (e - start) (drop start idx1) @ drop (e - start) (drop start idx1)"
      by (rule arg_cong)
    then show ?thesis by (simp only: append_take_drop_id)
  qed
  then have "mset (drop start idx1) = mset ?slice + mset (drop e idx1)"
    by (metis mset_append)
  then have 4: "mset (concat (map leaf_ids children)) = mset (drop start idx)"
    using res ih(4) nk pp(10) by (simp add: node_ok_def)
  have 5: "list_all (\<lambda>ch. 1 \<le> node_size ch \<and> leaf_ids ch \<noteq> []) children"
    if all: "\<forall>c. c0 \<le> c \<and> c < B \<longrightarrow> c \<in> set bt"
  proof -
    have sb: "set bt1 = set bt" using pp(4) by (metis set_mset_mset)
    from all c0 have "c0 \<in> set bt" by simp
    with pp(9) have "start < e" by simp
    with ls have "?slice \<noteq> []" by auto
    with nk ls \<open>start < e\<close> have "1 \<le> node_size child \<and> leaf_ids child \<noteq> []"
      by (auto simp: node_ok_def)
    moreover from all sb ih(5) have "list_all (\<lambda>ch. 1 \<le> node_size ch \<and> leaf_ids ch \<noteq> []) rest"
      by simp
    ultimately show ?thesis using res by simp
  qed
  from 1 2 3 4 5 show ?case by blast
qed


lemma make_leaf_ok:
  assumes "childs node = []" and "length idx < B \<or> D (sort idx)"
  shows "node_ok B D idx (make_leaf node idx lvl)"
  using assms by (simp add: node_ok_def make_leaf_def)

lemma computeClustering_tree:
  fixes E :: "('d, 'r) collab"
  shows "computeClustering fuel E ix rng node idx branching lvl = Ok (node', rng')
     \<Longrightarrow> childs node = [] \<Longrightarrow> 1 \<le> branching
     \<Longrightarrow> node_ok (nat branching) (degenerate E ix branching) idx node'
         \<and> (childs node' \<noteq> [] \<longrightarrow> length (childs node') = nat branching)
         \<and> (childs node' \<noteq> [] \<and> 1 \<le> iterations_' ix
              \<longrightarrow> list_all (\<lambda>ch. 1 \<le> node_size ch \<and> leaf_ids ch \<noteq> []) (childs node'))"
proof (induction fuel arbitrary: rng node idx lvl node' rng')
  case 0
  then show ?case by simp
next
  case (Suc fuel)
  let ?B = "nat branching"
  let ?D = "degenerate E ix branching"
  have B: "0 < ?B" using Suc.prems(3) by simp
  show ?case
  proof (cases "int (length idx) < branching")
    case True
    with Suc.prems(1) have n': "node' = make_leaf node idx lvl" by simp
    have "length idx < ?B" using True by simp
    then have "node_ok ?B ?D idx node'" unfolding n' using Suc.prems(2) by (simp add: make_leaf_ok)
    moreover have "childs node' = []" unfolding n' using Suc.prems(2) by (simp add: make_leaf_def)
    ultimately show ?thesis by simp
  next
    case big: False
    with Suc.prems(1,3) obtain centers_idx rng1 where
      cc: "chooseCenters E ix branching idx rng = Ok (centers_idx, rng1)"
      by (auto simp: rbind_eq_Ok)
    show ?thesis
    proof (cases "int (length centers_idx) < branching")
      case True
      with Suc.prems(1,3) big cc have n': "node' = make_leaf node idx lvl" by simp
      have "?D (sort idx)"
        unfolding degenerate_def using cc True by (intro exI [of _ idx]) auto
      then have "node_ok ?B ?D idx node'" unfolding n' using Suc.prems(2) by (simp add: make_leaf_ok)
      moreover have "childs node' = []" unfolding n' using Suc.prems(2) by (simp add: make_leaf_def)
      ultimately show ?thesis by simp
    next
      case False
      let ?st0 = "assign_points E (dataset_' ix) (veclen_' ix) idx (map (row (dataset_' ix)) centers_idx) ?B"
      from Suc.prems(1,3) big cc False obtain st children rng2 where
        lp: "kmeans_loop E (dataset_' ix) (veclen_' ix) idx ?B (iterations_' ix) ?st0 = Ok st"
        and bc: "build_children
                   (\<lambda>rng' child slice. computeClustering fuel E ix rng' child slice branching (lvl + 1))
                   E (dataset_' ix) (veclen_' ix) st [0..<?B] idx (belongs_to st) 0 rng1 = Ok (children, rng2)"
        and n': "node' = KMeansNode (pivot node) (radius node) (variance node) (int (length idx)) children
                           (indices node) lvl"
        by (auto simp: rbind_eq_Ok split: if_splits)
      have c0: "counts_ok (length idx) ?B (belongs_to ?st0) (count ?st0)"
        using assign_points_counts [OF B] .
      have s0: "\<not> converged ?st0" "iteration ?st0 = 0"
        by (simp_all add: assign_points_def split: prod.splits)
      from kmeans_loop_counts [OF lp B c0] s0
      have cs: "counts_ok (length idx) ?B (belongs_to st) (count st)"
        and pos: "1 \<le> iterations_' ix \<longrightarrow> (\<forall>c<?B. 1 \<le> count st ! c)"
        by auto
      from cs have bt: "length idx = length (belongs_to st)" "\<forall>k<length (belongs_to st). belongs_to st ! k < ?B"
        "\<forall>c<?B. count st ! c = int (count_list (belongs_to st) c)"
        by (auto simp: counts_ok_def)
      have rec: "node_ok ?B ?D slice child'"
        if "computeClustering fuel E ix r child slice branching (lvl + 1) = Ok (child', r')"
          and "childs child = []" for r child slice child' r'
        using Suc.IH [OF that Suc.prems(3)] by simp
      from build_children_props [of _ ?B ?D, OF rec bc bt(1)] bt(2)
      have ch: "length children = ?B" "list_all (tree_ok ?B ?D) children"
        "sum_list (map node_size children) = int (length idx)"
        "mset (concat (map leaf_ids children)) = mset idx"
        "(\<forall>c<?B. c \<in> set (belongs_to st))
           \<longrightarrow> list_all (\<lambda>ch. 1 \<le> node_size ch \<and> leaf_ids ch \<noteq> []) children"
        using bt(1) by simp_all
      have ne: "children \<noteq> []" using ch(1) B by auto
      have 1: "node_ok ?B ?D idx node'"
        unfolding n' node_ok_def using ch ne by simp
      have 2: "length (childs node') = ?B" unfolding n' using ch(1) by simp
      have 3: "list_all (\<lambda>ch. 1 \<le> node_size ch \<and> leaf_ids ch \<noteq> []) (childs node')"
        if "1 \<le> iterations_' ix"
      proof -
        have "c \<in> set (belongs_to st)" if "c < ?B" for c
        proof -
          from pos \<open>1 \<le> iterations_' ix\<close> that have "1 \<le> count st ! c" by simp
          with bt(3) that have "0 < count_list (belongs_to st) c" by simp
          then show ?thesis by (metis count_list_0_iff less_numeral_extra(3))
        qed
        with ch(5) show ?thesis unfolding n' by simp
      qed
      from 1 2 3 show ?thesis by simp
    qed
  qed
qed

lemma computeNodeStatistics_childs:
  "computeNodeStatistics E ix node idx = Ok node' \<Longrightarrow> childs node' = childs node"
  unfolding computeNodeStatistics_def
  by (auto simp: rbind_eq_Ok Let_def split: if_splits)

lemma buildIndex_tree:
  assumes "buildIndex fuel E ix = Ok ix'"
  shows "\<exists>rnode. root_' ix' = Some rnode
           \<and> tree_ok (nat (branching_' ix)) (degenerate E ix (branching_' ix)) rnode
           \<and> node_size rnode = int (size_' ix)
           \<and> mset (leaf_ids rnode) = mset (map int [0..<size_' ix])"
proof -
  let ?idx = "map int [0..<size_' ix]"
  from assms have b: "2 \<le> branching_' ix" unfolding buildIndex_def by (auto split: if_splits)
  from assms b obtain r0 rnode rng' where
    st: "computeNodeStatistics E ix (KMeansNode [] (lit_d E 0) (lit_d E 0) 0 [] [] 0) ?idx = Ok r0"
    and cl: "computeClustering fuel E ix (rng_' ix) r0 ?idx (branching_' ix) 0 = Ok (rnode, rng')"
    and r: "root_' ix' = Some rnode"
    unfolding buildIndex_def by (auto simp: rbind_eq_Ok Let_def)
  have "childs r0 = []" using computeNodeStatistics_childs [OF st] by simp
  from computeClustering_tree [OF cl this] b r show ?thesis
    by (simp add: node_ok_def)
qed

text \<open>
  C8, as the code has it. After a build the root is a node of the size of the dataset,
  the ids \<open>0 .. N-1\<close> are spread over the leaves, every inner node has exactly
  \<open>branching\<close> children whose sizes add up to its own, and every leaf has \<open>size\<close> equal
  to the number of its ids, which are sorted. A leaf has fewer than \<open>branching\<close> ids
  unless \<open>chooseCenters\<close> returned fewer than \<open>branching\<close> centers for them.
\<close>

theorem C8_tree_after_build:
  assumes "buildIndex fuel E ix = Ok ix'"
  shows "\<exists>rnode. root_' ix' = Some rnode
           \<and> tree_ok (nat (branching_' ix)) (degenerate E ix (branching_' ix)) rnode
           \<and> node_size rnode = int (size_' ix)
           \<and> mset (leaf_ids rnode) = mset (map int [0..<size_' ix])"
  using buildIndex_tree [OF assms] .

text \<open>
  C6, as the code has it. When the cap \<open>iterations_\<close> is at least 1 and
  \<open>computeClustering\<close> subdivides a node (it returns it with children), the node has
  \<open>branching\<close> children and each of them holds at least one point.
\<close>

theorem C6_children_not_empty:
  assumes "computeClustering fuel E ix rng node idx branching lvl = Ok (node', rng')"
    and "childs node = []" and "1 \<le> branching" and "1 \<le> iterations_' ix"
    and "childs node' \<noteq> []"
  shows "length (childs node') = nat branching
       \<and> list_all (\<lambda>ch. 1 \<le> node_size ch \<and> leaf_ids ch \<noteq> []) (childs node')"
  using computeClustering_tree [OF assms(1-3)] assms(4,5) by simp


lemma six_index_built:
  "rbind (KMeansIndex_ctor exact_collab [[0], [10], [100], [54], [56], [56]] 1
            [''branching'' \<mapsto> PInt 3, ''iterations'' \<mapsto> PInt 1] [])
         (\<lambda>ix. if ix = six_fresh then buildIndex 3 exact_collab ix else Fault AssertionFailed)
     = Ok six_index"
  by code_simp

text \<open>Witness for C8: the tree built over the six points.\<close>

theorem C8_tree_after_build_witness:
  "tree_ok 3 (degenerate exact_collab six_fresh 3) six_tree
     \<and> node_size six_tree = 6
     \<and> mset (leaf_ids six_tree) = mset (map int [0..<6])"
proof -
  have b: "buildIndex 3 exact_collab six_fresh = Ok six_index" by code_simp
  have f: "root_' six_index = Some six_tree" "branching_' six_fresh = 3" "size_' six_fresh = 6"
    by (simp_all add: six_index_def six_fresh_def)
  from C8_tree_after_build [OF b] show ?thesis unfolding f by simp
qed

text \<open>
  Counterexample to C8 as stated: two equal points and \<open>branching = 2\<close>, random centers.
  The second draw is rejected as a duplicate of the first, \<open>chooseCentersRandom\<close> returns
  one center and the root stays a leaf with two ids, which is not fewer than \<open>branching\<close>.
\<close>

theorem C8_leaf_with_branching_ids:
  "rbind (rbind (KMeansIndex_ctor exact_collab [[5], [5]] 1 [''branching'' \<mapsto> PInt 2] [])
                (buildIndex 2 exact_collab))
         (\<lambda>ix. Ok (branching_' ix, root_' ix))
     = Ok (2, Some (KMeansNode [5] 0 0 2 [] [0, 1] 0))"
  by code_simp

text \<open>Witness for C6: the root of the six points is subdivided into three children.\<close>

theorem C6_children_not_empty_witness:
  "length (childs six_tree) = 3
     \<and> list_all (\<lambda>ch. 1 \<le> node_size ch \<and> leaf_ids ch \<noteq> []) (childs six_tree)"
proof -
  have c: "computeClustering 3 exact_collab six_fresh [] six_root [0, 1, 2, 3, 4, 5] 3 0 = Ok (six_tree, [])"
    by code_simp
  have f: "childs six_root = []" "(1::int) \<le> 3" "1 \<le> iterations_' six_fresh" "childs six_tree \<noteq> []"
    by (simp_all add: six_root_def six_fresh_def six_tree_def)
  from C6_children_not_empty [OF c f] show ?thesis by simp
qed

text \<open>
  Counterexample to C6 as stated: the points \<open>0, 0, 10\<close> with \<open>branching = 3\<close>, the cap
  \<open>iterations = 0\<close> and k-means++ centers, where \<open>rand_double\<close> returns \<open>0\<close> and then
  half of its argument. The centers are the points 0, 0 and 2; the first assignment
  gives both points at \<open>0\<close> to the first center, the loop makes no pass and the second
  child receives no point. (Its variance is the quotient \<open>0/0\<close>.)
\<close>

theorem C6_empty_child_without_refinement:
  "rbind (rbind (KMeansIndex_ctor untrapped_collab [[0], [0], [10]] 1
                   [''branching'' \<mapsto> PInt 3, ''iterations'' \<mapsto> PInt 0,
                    ''centers_init'' \<mapsto> PCenters FLANN_CENTERS_KMEANSPP] [0, 1 / 2])
                (buildIndex 2 untrapped_collab))
         (\<lambda>ix. Ok (iterations_' ix, root_' ix))
     = Ok (0, Some (KMeansNode [10 / 3] (400 / 9) (200 / 9) 3
                     [KMeansNode [0] 0 0 2 [] [0, 1] 1,
                      KMeansNode [0] 0 0 0 [] [] 1,
                      KMeansNode [10] 0 0 1 [] [2] 1]
                     [] 0))"
  by code_simp

subsection \<open>Queries\<close>

declare findNN.simps [simp del] findNN_loop.simps [simp del] findExactNN.simps [simp del]

lemma searchable_leaf:
  "searchable ix node \<Longrightarrow> childs node = [] \<Longrightarrow>
     nat (node_size node) \<le> length (indices node)
     \<and> list_all (row_ok (dataset_' ix)) (take (nat (node_size node)) (indices node))"
  by (cases node) simp

lemma searchable_inner:
  "searchable ix node \<Longrightarrow> childs node \<noteq> [] \<Longrightarrow>
     1 \<le> branching_' ix \<and> nat (branching_' ix) \<le> length (childs node)
     \<and> list_all (searchable ix) (childs node)"
  by (cases node) simp

lemma searchable_child:
  "searchable ix node \<Longrightarrow> childs node \<noteq> [] \<Longrightarrow> i < length (childs node)
     \<Longrightarrow> searchable ix (childs node ! i)"
  using searchable_inner [of ix node] by (simp add: list_all_length)

lemma scan_leaf_Ok:
  "searchable ix node \<Longrightarrow> childs node = [] \<Longrightarrow> \<exists>r. scan_leaf E R ix node result vec = Ok r"
  using searchable_leaf [of ix node] by (simp add: scan_leaf_def Let_def)

lemma heap_ok_pushes:
  assumes "heap_ok ix heap" and "\<forall>i\<in>set js. searchable ix (cs ! i)"
  shows "heap_ok ix (foldl (\<lambda>h i. if i \<noteq> best then heap_insert h (cs ! i, key i) else h) heap js)"
  using assms by (induction js arbitrary: heap) (simp_all add: heap_ok_def heap_insert_def)

lemma exploreNodeBranches_Ok:
  assumes "searchable ix node" and "childs node \<noteq> []" and "heap_ok ix heap"
  shows "\<exists>i heap'. exploreNodeBranches E ix node q heap = Ok (i, heap') \<and> heap_ok ix heap'"
proof -
  let ?B = "nat (branching_' ix)"
  from searchable_inner [OF assms(1,2)]
  have g: "1 \<le> branching_' ix" "?B \<le> length (childs node)" by simp_all
  have "\<forall>i\<in>set [0..<?B]. searchable ix (childs node ! i)"
    using searchable_child [OF assms(1,2)] g by auto
  from heap_ok_pushes [OF assms(3) this] g show ?thesis
    by (simp add: exploreNodeBranches_def Let_def)
qed

lemma findNN_Ok:
  "searchable ix node \<Longrightarrow> heap_ok ix heap
     \<Longrightarrow> \<exists>r c h. findNN E R ix node result vec checks maxChecks heap = Ok (r, c, h) \<and> heap_ok ix h"
proof (induction E R ix node result vec checks maxChecks heap rule: findNN.induct)
  case (1 E R ix node result vec checks maxChecks heap)
  show ?case
  proof (cases "too_far E R (veclen_' ix) node result vec")
    case True
    with "1.prems" show ?thesis by (subst findNN.simps) simp
  next
    case far: False
    show ?thesis
    proof (cases "childs node = []")
      case True
      from scan_leaf_Ok [OF "1.prems"(1) True, of E R result vec]
      obtain r where "scan_leaf E R ix node result vec = Ok r"
        by blast
      with far True "1.prems" show ?thesis by (subst findNN.simps) simp
    next
      case False
      from exploreNodeBranches_Ok [OF "1.prems"(1) False "1.prems"(2), of E vec] obtain i h1 where
        e: "exploreNodeBranches E ix node vec heap = Ok (i, h1)" and h1: "heap_ok ix h1" by blast
      have "i < length (childs node)" using exploreNodeBranches_bound [OF e] .
      then have "searchable ix (childs node ! i)" using searchable_child "1.prems"(1) False by blast
      from "1.IH" [OF far False e refl this h1] far False e show ?thesis
        by (subst findNN.simps) simp
    qed
  qed
qed

lemma popMin_heap_ok:
  "popMin E heap = Some (b, rest) \<Longrightarrow> heap_ok ix heap \<Longrightarrow> searchable ix (fst b) \<and> heap_ok ix rest"
proof (induction heap arbitrary: b rest)
  case Nil
  then show ?case by simp
next
  case (Cons a heap)
  show ?case
  proof (cases "popMin E heap")
    case None
    with Cons.prems show ?thesis by (auto simp: heap_ok_def)
  next
    case (Some mr)
    obtain m r where mr: "mr = (m, r)" by (cases mr)
    have ih: "searchable ix (fst m) \<and> heap_ok ix r"
      using Cons.IH [of m r] Some mr Cons.prems(2) by (simp add: heap_ok_def)
    from Cons.prems Some mr ih show ?thesis
      by (auto simp: heap_ok_def split: if_splits)
  qed
qed

lemma findNN_loop_Ok:
  "heap_ok ix (snd (snd s)) \<Longrightarrow> \<exists>r c. findNN_loop E R ix vec maxChecks s = Ok (r, c)"
proof (induction E R ix vec maxChecks s rule: findNN_loop.induct)
  case (1 E R ix vec maxChecks result checks heap)
  show ?case
  proof (cases "popMin E heap")
    case None
    then show ?thesis by (subst findNN_loop.simps) simp
  next
    case (Some bh)
    obtain branch heap' where bh: "bh = (branch, heap')" by (cases bh)
    from popMin_heap_ok [OF Some [unfolded bh], of ix] "1.prems"
    have ok: "searchable ix (fst branch)" "heap_ok ix heap'" by simp_all
    show ?thesis
    proof (cases "checks < maxChecks \<or> \<not> full R result")
      case True
      from findNN_Ok [OF ok, of E R result vec checks maxChecks] obtain r c h where
        f: "findNN E R ix (fst branch) result vec checks maxChecks heap' = Ok (r, c, h)"
        and h: "heap_ok ix h" by blast
      from "1.IH" [OF Some [unfolded bh] refl True f] h
      obtain r' c' where "findNN_loop E R ix vec maxChecks (r, c, h) = Ok (r', c')" by auto
      with Some bh True f show ?thesis by (subst findNN_loop.simps) simp
    next
      case False
      with Some bh show ?thesis by (subst findNN_loop.simps) auto
    qed
  qed
qed

lemma foldM_Ok:
  assumes "\<And>s x. x \<in> set xs \<Longrightarrow> \<exists>t. f s x = Ok t"
  shows "\<exists>t. foldM f xs s = Ok t"
  using assms
proof (induction xs arbitrary: s)
  case Nil
  then show ?case by simp
next
  case (Cons x xs)
  from Cons.prems [of x s] obtain t where t: "f s x = Ok t" by auto
  from Cons.IH [of t] Cons.prems obtain u where "foldM f xs t = Ok u" by auto
  with t show ?case by simp
qed

lemma findExactNN_Ok:
  "searchable ix node \<Longrightarrow> \<exists>r. findExactNN E R ix node result vec = Ok r"
proof (induction E R ix node result vec rule: findExactNN.induct)
  case (1 E R ix node result vec)
  show ?case
  proof (cases "too_far E R (veclen_' ix) node result vec")
    case True
    then show ?thesis by (subst findExactNN.simps) simp
  next
    case far: False
    show ?thesis
    proof (cases "childs node = []")
      case True
      with far scan_leaf_Ok [OF "1.prems" True, of E R result vec] show ?thesis
        by (subst findExactNN.simps) simp
    next
      case False
      let ?B = "nat (branching_' ix)"
      from searchable_inner [OF "1.prems" False]
      have g: "1 \<le> branching_' ix" "?B \<le> length (childs node)" by simp_all
      then have g': "\<not> \<not> (0 \<le> branching_' ix \<and> ?B \<le> length (childs node))" by simp
      have "\<exists>t. findExactNN E R ix (childs node ! i) res vec = Ok t"
        if "i \<in> set (getCenterOrdering E (veclen_' ix) node vec ?B)" for res i
      proof -
        from that have "i < ?B" by (simp add: getCenterOrdering_set)
        with g have "i < length (childs node)" by simp
        then have "searchable ix (childs node ! i)" using searchable_child "1.prems" False by blast
        from "1.IH" [OF far False g' that this] show ?thesis .
      qed
      from foldM_Ok [of _ "\<lambda>res i. findExactNN E R ix (childs node ! i) res vec", OF this]
      obtain t where "foldM (\<lambda>res i. findExactNN E R ix (childs node ! i) res vec)
                 (getCenterOrdering E (veclen_' ix) node vec ?B) result = Ok t" by blast
      with far False g show ?thesis by (subst findExactNN.simps) simp
    qed
  qed
qed

lemma findNeighbors_searchable:
  assumes "root_' ix = Some rnode" and "searchable ix rnode"
  shows "\<exists>result'. findNeighbors E R ix result vec maxChecks = Ok result'"
proof (cases "maxChecks = FLANN_CHECKS_UNLIMITED")
  case True
  with assms findExactNN_Ok [OF assms(2), of E R result vec] show ?thesis
    by (simp add: findNeighbors_def)
next
  case False
  have "heap_ok ix []" by (simp add: heap_ok_def)
  from findNN_Ok [OF assms(2) this, of E R result vec 0 maxChecks] obtain r c h where
    f: "findNN E R ix rnode result vec 0 maxChecks [] = Ok (r, c, h)" and h: "heap_ok ix h" by blast
  from findNN_loop_Ok [of ix "(r, c, h)" E R vec maxChecks] h obtain r' c' where
    "findNN_loop E R ix vec maxChecks (r, c, h) = Ok (r', c')" by auto
  with f False assms(1) show ?thesis
    by (simp add: findNeighbors_def findNeighbors_approx_def)
qed


lemma tree_ok_searchable:
  "tree_ok B D node \<Longrightarrow> B = nat (branching_' ix) \<Longrightarrow> 1 \<le> branching_' ix
     \<Longrightarrow> list_all (row_ok (dataset_' ix)) (leaf_ids node) \<Longrightarrow> searchable ix node"
proof (induction node)
  case (KMeansNode p r v s cs ids l)
  show ?case
  proof (cases "cs = []")
    case True
    with KMeansNode.prems show ?thesis by simp
  next
    case False
    have "searchable ix c" if "c \<in> set cs" for c
    proof -
      from KMeansNode.prems(1) False that have "tree_ok B D c" by (simp add: list_all_iff)
      moreover from KMeansNode.prems(4) False that have "list_all (row_ok (dataset_' ix)) (leaf_ids c)"
        by (auto simp: list_all_iff)
      ultimately show ?thesis using KMeansNode.IH [OF that] KMeansNode.prems(2,3) by simp
    qed
    with KMeansNode.prems False show ?thesis by (simp add: list_all_iff)
  qed
qed

lemma buildIndex_frame:
  "buildIndex fuel E ix = Ok ix' \<Longrightarrow>
     dataset_' ix' = dataset_' ix \<and> branching_' ix' = branching_' ix \<and> 2 \<le> branching_' ix"
  unfolding buildIndex_def by (auto simp: rbind_eq_Ok Let_def split: if_splits)

text \<open>
  C4, as the code has it. On an index that has been built, over a dataset of \<open>size_\<close>
  rows, \<open>findNeighbors\<close> returns normally for every query vector, every result set and
  every value of \<open>checks\<close>, in the exact and in the approximate mode.
\<close>

theorem C4_queries_return_after_build:
  assumes "buildIndex fuel E ix = Ok ix'" and "size_' ix = length (dataset_' ix)"
  shows "\<exists>result'. findNeighbors E R ix' result vec maxChecks = Ok result'"
proof -
  from buildIndex_tree [OF assms(1)] obtain rnode where
    r: "root_' ix' = Some rnode"
    and t: "tree_ok (nat (branching_' ix)) (degenerate E ix (branching_' ix)) rnode"
    and m: "mset (leaf_ids rnode) = mset (map int [0..<size_' ix])" by blast
  from buildIndex_frame [OF assms(1)]
  have f: "dataset_' ix' = dataset_' ix" "branching_' ix' = branching_' ix" "2 \<le> branching_' ix"
    by simp_all
  have "set (leaf_ids rnode) = set (map int [0..<size_' ix])" using m by (metis set_mset_mset)
  then have "list_all (row_ok (dataset_' ix')) (leaf_ids rnode)"
    using assms(2) f(1) by (auto simp: list_all_iff row_ok_def)
  from tree_ok_searchable [OF t _ _ this] f have "searchable ix' rnode" by simp
  from findNeighbors_searchable [OF r this] show ?thesis .
qed

text \<open>Witness for C4: a query on the index built over the six points.\<close>

theorem C4_queries_return_after_build_witness:
  "\<exists>result'. findNeighbors exact_collab (KNNResultSet 1) six_index [] [100] 32 = Ok result'"
proof -
  have b: "buildIndex 3 exact_collab six_fresh = Ok six_index" by code_simp
  have s: "size_' six_fresh = length (dataset_' six_fresh)" by (simp add: six_fresh_def)
  from C4_queries_return_after_build [OF b s] show ?thesis .
qed

text \<open>
  Counterexample to C4 as stated: a query on an index that was constructed and not yet
  built. \<open>root_\<close> is NULL, and both \<open>findNN\<close> and \<open>findExactNN\<close> start by reading
  \<open>node->pivot\<close>: the call does not return normally, in either mode.
\<close>

theorem C4_null_root_is_dereferenced:
  "rbind (KMeansIndex_ctor exact_collab [[0]] 1 Map.empty [])
         (\<lambda>ix. findNeighbors exact_collab (KNNResultSet 1) ix [] [0] 32) = Fault NullPointer
   \<and> rbind (KMeansIndex_ctor exact_collab [[0]] 1 Map.empty [])
         (\<lambda>ix. findNeighbors exact_collab (KNNResultSet 1) ix [] [0] FLANN_CHECKS_UNLIMITED)
       = Fault NullPointer"
  by code_simp

subsection \<open>The number of checks of an approximate query\<close>

lemma heap_all_pushes:
  assumes "heap_all P heap" and "\<forall>i\<in>set js. P (cs ! i)"
  shows "heap_all P (foldl (\<lambda>h i. if i \<noteq> best then heap_insert h (cs ! i, key i) else h) heap js)"
  using assms by (induction js arbitrary: heap) (simp_all add: heap_all_def heap_insert_def)

lemma popMin_mset: "popMin E heap = Some (b, rest) \<Longrightarrow> mset heap = add_mset b (mset rest)"
proof (induction heap arbitrary: b rest)
  case Nil
  then show ?case by simp
next
  case (Cons a heap)
  show ?case
  proof (cases "popMin E heap")
    case None
    then have "heap = []" by (cases heap) (auto split: option.splits if_splits)
    with Cons.prems None show ?thesis by simp
  next
    case (Some mr)
    obtain m r where mr: "mr = (m, r)" by (cases mr)
    have ih: "mset heap = add_mset m (mset r)" using Cons.IH Some mr by simp
    from Cons.prems Some mr ih show ?thesis by (auto split: if_splits)
  qed
qed

lemma popMin_heap_all:
  assumes "popMin E heap = Some (b, rest)" and "heap_all P heap"
  shows "P (fst b) \<and> heap_all P rest"
proof -
  from popMin_mset [OF assms(1)] have "set heap = insert b (set rest)"
    by (metis set_mset_mset set_mset_add_mset_insert)
  with assms(2) show ?thesis by (auto simp: heap_all_def list_all_iff)
qed

lemma popMin_heap_points:
  assumes "popMin E heap = Some (b, rest)"
  shows "heap_points heap = leaf_points (fst b) + heap_points rest"
proof -
  let ?f = "\<lambda>b. leaf_points (fst b)"
  from popMin_mset [OF assms]
  have "mset (map ?f heap) = mset (map ?f (b # rest))" by simp
  then have "sum_mset (mset (map ?f heap)) = sum_mset (mset (map ?f (b # rest)))" by simp
  then have "sum_list (map ?f heap) = sum_list (map ?f (b # rest))"
    by (simp only: sum_mset_sum_list)
  then show ?thesis by (simp add: heap_points_def)
qed

lemma held_fold:
  assumes "knn_contract R held k"
  shows "held s \<le> k \<Longrightarrow>
     held (foldl (\<lambda>res index. addPoint R (g index) index res) s xs) = min k (held s + length xs)"
proof (induction xs arbitrary: s)
  case Nil
  then show ?case by simp
next
  case (Cons x xs)
  have h: "held (addPoint R (g x) x s) = min k (held s + 1)"
    using assms by (simp add: knn_contract_def)
  then have "held (addPoint R (g x) x s) \<le> k" by simp
  from Cons.IH [OF this] h show ?case by (simp add: min_def)
qed

lemma scan_leaf_held:
  assumes "scan_leaf E R ix node result vec = Ok r" and "knn_contract R held k"
    and "held result \<le> k"
  shows "held r = min k (held result + nat (node_size node))"
proof -
  let ?n = "nat (node_size node)"
  from assms(1) have len: "?n \<le> length (indices node)"
    and r: "r = foldl (\<lambda>res index.
                        addPoint R (distance_' E (row (dataset_' ix) index) vec (veclen_' ix)) index res)
                     result (take ?n (indices node))"
    by (auto simp: scan_leaf_def Let_def split: if_splits)
  from held_fold [OF assms(2,3), of "\<lambda>index. distance_' E (row (dataset_' ix) index) vec (veclen_' ix)"
      "take ?n (indices node)"] len
  show ?thesis unfolding r by (simp add: min_absorb2)
qed

lemma leaves_le_leaf:
  "leaves_le L node \<Longrightarrow> childs node = [] \<Longrightarrow> 0 \<le> node_size node \<and> node_size node \<le> L"
  by (cases node) simp

lemma leaves_le_child:
  "leaves_le L node \<Longrightarrow> childs node \<noteq> [] \<Longrightarrow> i < length (childs node)
     \<Longrightarrow> leaves_le L (childs node ! i)"
  by (cases node) (simp add: list_all_length)

lemma leaf_points_leaf: "childs node = [] \<Longrightarrow> leaf_points node = nat (node_size node)"
  by (cases node) simp

lemma leaf_points_inner:
  "childs node \<noteq> [] \<Longrightarrow> leaf_points node = sum_list (map leaf_points (childs node))"
  by (cases node) simp

lemma heap_points_pushes:
  "heap_points (foldl (\<lambda>h i. if i \<noteq> best then heap_insert h (cs ! i, key i) else h) heap js)
     = heap_points heap + sum_list (map (\<lambda>i. if i \<noteq> best then leaf_points (cs ! i) else 0) js)"
  by (induction js arbitrary: heap) (simp_all add: heap_points_def heap_insert_def)

lemma exploreNodeBranches_shape:
  assumes "exploreNodeBranches E ix node q heap = Ok (i, heap')"
  shows "i < nat (branching_' ix) \<and> nat (branching_' ix) \<le> length (childs node)
       \<and> (\<exists>key. heap' = foldl (\<lambda>h j. if j \<noteq> i then heap_insert h (childs node ! j, key j) else h)
                           heap [0..<nat (branching_' ix)])"
proof -
  let ?B = "nat (branching_' ix)"
  from assms have g: "1 \<le> branching_' ix" "?B \<le> length (childs node)"
    by (auto simp: exploreNodeBranches_def Let_def split: if_splits)
  have "i < max 1 ?B"
    using assms g best_branch_bound [of E _ ?B]
    by (auto simp: exploreNodeBranches_def Let_def split: if_splits)
  with g have "i < ?B" by auto
  moreover from assms g have
    "\<exists>key. heap' = foldl (\<lambda>h j. if j \<noteq> i then heap_insert h (childs node ! j, key j) else h) heap [0..<?B]"
    by (auto simp: exploreNodeBranches_def Let_def split: if_splits)
  ultimately show ?thesis using g by blast
qed

lemma exploreNodeBranches_points:
  assumes "exploreNodeBranches E ix node q heap = Ok (i, heap')"
  shows "heap_points heap' + leaf_points (childs node ! i)
           \<le> heap_points heap + sum_list (map leaf_points (childs node))"
proof -
  let ?B = "nat (branching_' ix)"
  let ?cs = "childs node"
  from exploreNodeBranches_shape [OF assms] obtain key where
    iB: "i < ?B" and g: "?B \<le> length ?cs"
    and h: "heap' = foldl (\<lambda>h j. if j \<noteq> i then heap_insert h (?cs ! j, key j) else h) heap [0..<?B]"
    by blast
  have "heap_points heap' + leaf_points (?cs ! i)
          = heap_points heap + sum_list (map (\<lambda>j. leaf_points (?cs ! j)) [0..<?B])"
    unfolding h heap_points_pushes using sum_list_except [OF iB, of "\<lambda>j. leaf_points (?cs ! j)"] by simp
  also have "map (\<lambda>j. leaf_points (?cs ! j)) [0..<?B] = map leaf_points (take ?B ?cs)"
    using g by (simp add: list_eq_iff_nth_eq)
  finally show ?thesis using sum_list_take_le [of leaf_points ?B ?cs] by simp
qed

lemma exploreNodeBranches_heap_all:
  assumes "exploreNodeBranches E ix node q heap = Ok (i, heap')"
    and "heap_all P heap" and "\<forall>j<length (childs node). P (childs node ! j)"
  shows "heap_all P heap'"
proof -
  from exploreNodeBranches_shape [OF assms(1)] obtain key where
    g: "nat (branching_' ix) \<le> length (childs node)"
    and h: "heap' = foldl (\<lambda>h j. if j \<noteq> i then heap_insert h (childs node ! j, key j) else h)
                      heap [0..<nat (branching_' ix)]"
    by blast
  have "\<forall>j\<in>set [0..<nat (branching_' ix)]. P (childs node ! j)" using assms(3) g by auto
  from heap_all_pushes [OF assms(2) this] show ?thesis unfolding h .
qed

lemma findNN_checks:
  "findNN E R ix node result vec checks maxChecks heap = Ok (result', checks', heap')
     \<Longrightarrow> knn_contract R held k \<Longrightarrow> leaves_le L node \<Longrightarrow> heap_all (leaves_le L) heap
     \<Longrightarrow> checks_inv held k h0 maxChecks L result checks
     \<Longrightarrow> heap_all (leaves_le L) heap' \<and> checks_inv held k h0 maxChecks L result' checks'
         \<and> checks' + int (heap_points heap') \<le> checks + int (heap_points heap) + int (leaf_points node)"
proof (induction E R ix node result vec checks maxChecks heap rule: findNN.induct)
  case (1 E R ix node result vec checks maxChecks heap)
  note run = "1.prems"(1) [unfolded findNN.simps [of E R ix node result vec checks maxChecks heap]]
  show ?case
  proof (cases "too_far E R (veclen_' ix) node result vec")
    case True
    with run "1.prems" show ?thesis by simp
  next
    case far: False
    show ?thesis
    proof (cases "childs node = []")
      case leaf: True
      note c = "1.prems"(2)
      from leaves_le_leaf [OF "1.prems"(3) leaf]
      have sz: "0 \<le> node_size node" "node_size node \<le> L" by simp_all
      show ?thesis
      proof (cases "maxChecks \<le> checks \<and> full R result")
        case True
        with run far leaf "1.prems" show ?thesis by simp
      next
        case False
        with run far leaf obtain r where
          sc: "scan_leaf E R ix node result vec = Ok r"
          and res: "result' = r" "checks' = checks + node_size node" "heap' = heap"
          by (auto simp: rbind_eq_Ok)
        from "1.prems"(5) have inv: "0 \<le> checks" "held result = min k (h0 + nat checks)"
          by (simp_all add: checks_inv_def)
        then have hk: "held result \<le> k" by simp
        have "checks < max maxChecks (int k - int h0)"
        proof (cases "checks < maxChecks")
          case True
          then show ?thesis by simp
        next
          case nf: False
          with False have "\<not> full R result" by simp
          with c have "held result < k" by (simp add: knn_contract_def)
          with inv have "h0 + nat checks < k" by (simp add: min_def split: if_splits)
          with inv(1) have "checks < int k - int h0" by linarith
          then show ?thesis by simp
        qed
        with sz have b: "checks + node_size node \<le> max 0 (max maxChecks (int k - int h0) - 1 + L)"
          by linarith
        from scan_leaf_held [OF sc c hk] inv sz
        have "held r = min k (h0 + nat (checks + node_size node))"
          by (simp add: nat_add_distrib min_def)
        with b inv(1) sz have "checks_inv held k h0 maxChecks L result' checks'"
          unfolding res by (simp add: checks_inv_def)
        moreover have "int (leaf_points node) = node_size node"
          using leaf_points_leaf [OF leaf] sz by simp
        ultimately show ?thesis using res "1.prems"(4) by simp
      qed
    next
      case False
      with run far obtain i h1 where
        e: "exploreNodeBranches E ix node vec heap = Ok (i, h1)"
        and r: "findNN E R ix (childs node ! i) result vec checks maxChecks h1
                  = Ok (result', checks', heap')"
        by (auto simp: rbind_eq_Ok)
      have il: "i < length (childs node)" using exploreNodeBranches_bound [OF e] .
      have l1: "leaves_le L (childs node ! i)" using leaves_le_child [OF "1.prems"(3) False il] .
      have "\<forall>j<length (childs node). leaves_le L (childs node ! j)"
        using leaves_le_child [OF "1.prems"(3) False] by simp
      from exploreNodeBranches_heap_all [OF e "1.prems"(4) this]
      have h1: "heap_all (leaves_le L) h1" .
      from "1.IH" [OF far False e refl r "1.prems"(2) l1 h1 "1.prems"(5)]
      have ih: "heap_all (leaves_le L) heap'" "checks_inv held k h0 maxChecks L result' checks'"
        "checks' + int (heap_points heap')
           \<le> checks + int (heap_points h1) + int (leaf_points (childs node ! i))"
        by simp_all
      from exploreNodeBranches_points [OF e] leaf_points_inner [OF False]
      have "int (heap_points h1) + int (leaf_points (childs node ! i))
              \<le> int (heap_points heap) + int (leaf_points node)"
        by linarith
      with ih show ?thesis by simp
    qed
  qed
qed

lemma findNN_loop_checks:
  "findNN_loop E R ix vec maxChecks s = Ok (result', checks')
     \<Longrightarrow> knn_contract R held k \<Longrightarrow> heap_all (leaves_le L) (snd (snd s))
     \<Longrightarrow> checks_inv held k h0 maxChecks L (fst s) (fst (snd s))
     \<Longrightarrow> checks_inv held k h0 maxChecks L result' checks'
         \<and> checks' \<le> fst (snd s) + int (heap_points (snd (snd s)))"
proof (induction E R ix vec maxChecks s rule: findNN_loop.induct)
  case (1 E R ix vec maxChecks result checks heap)
  note run = "1.prems"(1) [unfolded findNN_loop.simps [of E R ix vec maxChecks result checks heap]]
  show ?case
  proof (cases "popMin E heap")
    case None
    with run "1.prems" show ?thesis by simp
  next
    case (Some bh)
    obtain branch rest where bh: "bh = (branch, rest)" by (cases bh)
    note pm = Some [unfolded bh]
    note c = "1.prems"(2)
    from popMin_heap_all [OF pm, of "leaves_le L"] "1.prems"(3)
    have ok: "leaves_le L (fst branch)" "heap_all (leaves_le L) rest" by simp_all
    show ?thesis
    proof (cases "checks < maxChecks \<or> \<not> full R result")
      case True
      with run pm obtain r1 c1 h1 where
        f: "findNN E R ix (fst branch) result vec checks maxChecks rest = Ok (r1, c1, h1)"
        and l: "findNN_loop E R ix vec maxChecks (r1, c1, h1) = Ok (result', checks')"
        by (auto simp: rbind_eq_Ok)
      from "1.prems"(4) have inv: "checks_inv held k h0 maxChecks L result checks" by simp
      from findNN_checks [OF f c ok inv]
      have s1: "heap_all (leaves_le L) h1" "checks_inv held k h0 maxChecks L r1 c1"
        "c1 + int (heap_points h1) \<le> checks + int (heap_points rest) + int (leaf_points (fst branch))"
        by simp_all
      from "1.IH" [OF pm refl True f l c] s1
      have "checks_inv held k h0 maxChecks L result' checks'"
        "checks' \<le> c1 + int (heap_points h1)" by simp_all
      with s1(3) popMin_heap_points [OF pm] show ?thesis by simp
    next
      case False
      with run pm "1.prems" show ?thesis by auto
    qed
  qed
qed

text \<open>
  C1, as the code has it. A leaf is scanned whole, and only when \<open>checks < maxChecks\<close>
  or the result set is not full. For a result set of capacity \<open>k\<close> that holds \<open>h\<close>
  points at the start, and a tree whose leaves hold at most \<open>L\<close> points, \<open>checks\<close> at
  return is therefore at most \<open>max(maxChecks, k - h) - 1 + L\<close> (or zero when that is
  negative), and never more than the number of points in the leaves of the tree.
\<close>

theorem C1_checks_bound:
  assumes "findNeighbors_approx E R ix rnode result vec maxChecks = Ok (result', checks)"
    and "knn_contract R held k" and "held result \<le> k" and "leaves_le L rnode"
  shows "checks \<le> max 0 (max maxChecks (int k - int (held result)) - 1 + L)
       \<and> checks \<le> int (leaf_points rnode)"
proof -
  from assms(1) obtain r1 c1 h1 where
    f: "findNN E R ix rnode result vec 0 maxChecks [] = Ok (r1, c1, h1)"
    and l: "findNN_loop E R ix vec maxChecks (r1, c1, h1) = Ok (result', checks)"
    by (auto simp: findNeighbors_approx_def rbind_eq_Ok)
  have i0: "checks_inv held k (held result) maxChecks L result 0"
    using assms(3) by (simp add: checks_inv_def)
  have h0: "heap_all (leaves_le L) []" by (simp add: heap_all_def)
  from findNN_checks [OF f assms(2) assms(4) h0 i0]
  have s1: "heap_all (leaves_le L) h1" "checks_inv held k (held result) maxChecks L r1 c1"
    "c1 + int (heap_points h1) \<le> int (leaf_points rnode)"
    by (simp_all add: heap_points_def)
  from findNN_loop_checks [OF l assms(2), of L "held result"] s1
  have "checks_inv held k (held result) maxChecks L result' checks"
    "checks \<le> c1 + int (heap_points h1)" by simp_all
  with s1(3) show ?thesis by (simp add: checks_inv_def)
qed


lemma knn_insert_length: "length (knn_insert p pts) = Suc (length pts)"
  by (induction pts) simp_all

lemma KNNResultSet_contract: "knn_contract (KNNResultSet k) length k"
  by (simp add: knn_contract_def KNNResultSet_def knn_insert_length min.commute)

text \<open>
  Witness for C1: the nearest neighbour of \<open>100\<close> among the six points with
  \<open>maxChecks = 1\<close>. The leaves hold at most three points, and the bound \<open>3\<close> is reached.
\<close>

theorem C1_checks_bound_witness:
  "(3::int) \<le> max 0 (max 1 (int 1 - int (length ([] :: (real \<times> int) list))) - 1 + 3)
     \<and> (3::int) \<le> int (leaf_points six_tree)"
proof -
  have r: "findNeighbors_approx exact_collab (KNNResultSet 1) six_index six_tree [] [100] 1
             = Ok ([(1936, 4)], 3)"
    by code_simp
  have l: "leaves_le 3 six_tree" by (simp add: six_tree_def)
  have h: "length ([] :: (real \<times> int) list) \<le> 1" by simp
  from C1_checks_bound [OF r KNNResultSet_contract h l] show ?thesis .
qed

text \<open>
  Counterexample to C1 as stated: the same query. The first descent reaches a leaf of
  three points while \<open>checks = 0 < maxChecks = 1\<close>; the leaf is scanned whole and
  \<open>findNeighbors\<close> returns with \<open>checks = 3\<close>.
\<close>

theorem C1_checks_exceed_maxChecks:
  "findNeighbors_approx exact_collab (KNNResultSet 1) six_index six_tree [] [100] 1
     = Ok ([(1936, 4)], 3)
   \<and> root_' six_index = Some six_tree \<and> (1::int) < 3"
  by code_simp

subsection \<open>Radii under online insertion\<close>

declare addPointToTree.simps [simp del]

lemma radius_mono_refl: "radius_mono E node node"
proof (induction node)
  case (KMeansNode p r v s cs ids l)
  then show ?case by (simp add: list_all2_conv_all_nth)
qed

lemma radius_mono_inner:
  "childs node \<noteq> [] \<Longrightarrow>
     radius_mono E node node' \<longleftrightarrow>
       (radius node' = radius node \<or> less_d E (radius node) (radius node'))
       \<and> list_all2 (radius_mono E) (childs node) (childs node')"
  by (cases node) simp

lemma radius_mono_leaf: "childs node = [] \<Longrightarrow> radius_mono E node node'"
  by (cases node) simp

lemma radius_mono_trans:
  assumes tr: "\<And>a b c. less_d E a b \<Longrightarrow> less_d E b c \<Longrightarrow> less_d E a c"
  shows "radius_mono E a b \<Longrightarrow> radius_mono E b c \<Longrightarrow> radius_mono E a c"
proof (induction a arbitrary: b c)
  case (KMeansNode p r v s cs ids l)
  show ?case
  proof (cases "cs = []")
    case True
    then show ?thesis by simp
  next
    case False
    from KMeansNode.prems(1) False
    have ab: "radius b = r \<or> less_d E r (radius b)" "list_all2 (radius_mono E) cs (childs b)"
      by simp_all
    then have nb: "childs b \<noteq> []" using False by auto
    from KMeansNode.prems(2)
    have bc: "radius c = radius b \<or> less_d E (radius b) (radius c)"
      "list_all2 (radius_mono E) (childs b) (childs c)"
      unfolding radius_mono_inner [OF nb] by simp_all
    have 1: "radius c = r \<or> less_d E r (radius c)" using ab(1) bc(1) tr by metis
    have len: "length cs = length (childs b)" "length (childs b) = length (childs c)"
      using ab(2) bc(2) by (simp_all add: list_all2_lengthD)
    have "radius_mono E (cs ! i) (childs c ! i)" if "i < length cs" for i
    proof -
      have "radius_mono E (cs ! i) (childs b ! i)" using ab(2) that by (simp add: list_all2_nthD)
      moreover have "radius_mono E (childs b ! i) (childs c ! i)"
        using bc(2) that len by (simp add: list_all2_nthD)
      moreover have "cs ! i \<in> set cs" using that by simp
      ultimately show ?thesis using KMeansNode.IH by blast
    qed
    then have 2: "list_all2 (radius_mono E) cs (childs c)" using len by (simp add: list_all2_conv_all_nth)
    from 1 2 False show ?thesis by simp
  qed
qed

lemma touch_node_fields:
  "touch_node E node d = Ok node1 \<Longrightarrow>
     childs node1 = childs node
     \<and> radius node1 = (if less_d E (radius node) d then d else radius node)"
  by (auto simp: touch_node_def rbind_eq_Ok)

lemma addPointToTree_radius:
  "addPointToTree fuel E ix rng node index d = Ok (node', rng') \<Longrightarrow> radius_mono E node node'"
proof (induction fuel E ix rng node index d arbitrary: node' rng' rule: addPointToTree.induct)
  case (1 fuel E ix rng node index d)
  show ?case
  proof (cases "childs node = []")
    case True
    then show ?thesis by (rule radius_mono_leaf)
  next
    case False
    note run = "1.prems" [unfolded addPointToTree.simps [of fuel E ix rng node index d]]
    let ?cd = "closest_child E (veclen_' ix) (childs node) (row (dataset_' ix) index)
                  (nat (branching_' ix))"
    from run False obtain node1 child rng1 where
      ok: "row_ok (dataset_' ix) index"
      and t: "touch_node E node d = Ok node1"
      and g: "0 \<le> branching_' ix \<and> nat (branching_' ix) \<le> length (childs node)"
      and r: "addPointToTree fuel E ix rng (childs node ! fst ?cd) index (snd ?cd) = Ok (child, rng1)"
      and n': "node' = set_child node1 (fst ?cd) child"
      by (auto simp: rbind_eq_Ok Let_def split: if_splits)
    have g': "\<not> \<not> (0 \<le> branching_' ix \<and> nat (branching_' ix) \<le> length (childs node))"
      using g by simp
    have ok': "\<not> \<not> row_ok (dataset_' ix) index" using ok by simp
    from "1.IH" [OF ok' t False g' refl r]
    have ih: "radius_mono E (childs node ! fst ?cd) child" .
    from touch_node_fields [OF t]
    have f: "childs node1 = childs node"
      "radius node1 = (if less_d E (radius node) d then d else radius node)" by simp_all
    have 1: "radius node' = radius node \<or> less_d E (radius node) (radius node')"
      unfolding n' using f(2) by (simp add: set_child_def)
    have "radius_mono E (childs node ! j) ((childs node)[fst ?cd := child] ! j)"
      if "j < length (childs node)" for j
      using that ih radius_mono_refl by (cases "j = fst ?cd") simp_all
    then have 2: "list_all2 (radius_mono E) (childs node) (childs node')"
      unfolding n' using f(1) by (simp add: set_child_def list_all2_conv_all_nth)
    from 1 2 show ?thesis by (simp add: radius_mono_inner [OF False])
  qed
qed

lemma insert_points_radius:
  assumes tr: "\<And>a b c. less_d E a b \<Longrightarrow> less_d E b c \<Longrightarrow> less_d E a c"
    and "insert_points fuel E ix old_size points = Ok ix'" and "root_' ix = Some rnode"
  shows "\<exists>rnode'. root_' ix' = Some rnode' \<and> radius_mono E rnode rnode'"
  using assms(2) unfolding insert_points_def
proof (rule foldM_invariant [where P = "\<lambda>u. \<exists>rnode'. root_' u = Some rnode' \<and> radius_mono E rnode rnode'"])
  show "\<exists>rnode'. root_' ix = Some rnode' \<and> radius_mono E rnode rnode'"
    using assms(3) radius_mono_refl by auto
next
  fix u x v
  assume p: "\<exists>rnode'. root_' u = Some rnode' \<and> radius_mono E rnode rnode'"
    and s: "(case root_' u of None \<Rightarrow> Fault NullPointer
            | Some rn \<Rightarrow>
                rbind (addPointToTree fuel E u (rng_' u) rn (int (old_size + x))
                        (distance_' E (pivot rn) (points ! x) (veclen_' u)))
                      (\<lambda>(rnode', rng'). Ok (u \<lparr> root_' := Some rnode', rng_' := rng' \<rparr>))) = Ok v"
  from p obtain r1 where r1: "root_' u = Some r1" "radius_mono E rnode r1" by blast
  from s r1(1) obtain r2 g2 where
    a: "addPointToTree fuel E u (rng_' u) r1 (int (old_size + x))
          (distance_' E (pivot r1) (points ! x) (veclen_' u)) = Ok (r2, g2)"
    and v: "v = u \<lparr> root_' := Some r2, rng_' := g2 \<rparr>"
    by (auto simp: rbind_eq_Ok)
  from radius_mono_trans [OF tr r1(2) addPointToTree_radius [OF a]] v
  show "\<exists>rnode'. root_' v = Some rnode' \<and> radius_mono E rnode rnode'" by simp
qed

text \<open>
  C5, as the code has it. After an \<open>addPoints\<close> call that returns and does not meet the
  rebuild condition, every node that had children before the call has a radius that is the
  same as or greater than before, and so has every node below it that had children.
  A leaf that receives the point has its radius recomputed from its points by
  \<open>computeNodeStatistics\<close>, about which nothing is stated here. The comparison of the
  distance type is assumed transitive.
\<close>

theorem C5_inner_radius_nondecreasing:
  assumes "addPoints fuel E ix points points_cols rebuild_threshold = Ok ix'"
    and "root_' ix = Some rnode"
    and "\<And>a b c. less_d E a b \<Longrightarrow> less_d E b c \<Longrightarrow> less_d E a c"
    and "\<not> (less_d E (lit_d E 1) rebuild_threshold
            \<and> (\<exists>sab. size_at_build_' ix = Some sab
                  \<and> less_d E (mul_d E (lit_d E (of_nat sab)) rebuild_threshold)
                             (lit_d E (of_nat (size_' ix + length points)))))"
  shows "\<exists>rnode'. root_' ix' = Some rnode' \<and> radius_mono E rnode rnode'"
proof -
  let ?ix1 = "ix \<lparr> dataset_' := dataset_' ix @ points, size_' := size_' ix + length points,
                     ownDataset_' := True \<rparr>"
  have i: "insert_points fuel E ?ix1 (size_' ix) points = Ok ix'"
  proof (cases "less_d E (lit_d E 1) rebuild_threshold")
    case False
    with assms(1) show ?thesis
      unfolding addPoints_def by (simp add: Let_def split: if_splits)
  next
    case True
    with assms(1) obtain sab where sab: "size_at_build_' ix = Some sab"
      unfolding addPoints_def by (cases "size_at_build_' ix") (simp_all add: Let_def split: if_splits)
    with True assms(4)
    have "\<not> less_d E (mul_d E (lit_d E (of_nat sab)) rebuild_threshold)
                     (lit_d E (of_nat (size_' ix + length points)))" by simp
    with assms(1) True sab show ?thesis
      unfolding addPoints_def by (simp add: Let_def split: if_splits)
  qed
  have r: "root_' ?ix1 = Some rnode" using assms(2) by simp
  from insert_points_radius [OF assms(3) i r] show ?thesis .
qed

text \<open>
  Witness for C5: the point \<open>57\<close> is added to the six points with rebuild threshold \<open>2\<close>;
  the root keeps its radius \<open>2916\<close>.
\<close>

theorem C5_inner_radius_nondecreasing_witness:
  "\<exists>rnode'. root_' seven_index = Some rnode' \<and> radius_mono exact_collab six_tree rnode'"
proof -
  have a: "addPoints 3 exact_collab six_index [[57]] 1 2 = Ok seven_index" by code_simp
  have r: "root_' six_index = Some six_tree" by (simp add: six_index_def)
  have t: "\<And>a b c. less_d exact_collab a b \<Longrightarrow> less_d exact_collab b c \<Longrightarrow> less_d exact_collab a c"
    by (simp add: exact_ops)
  have n: "\<not> (less_d exact_collab (lit_d exact_collab 1) 2
            \<and> (\<exists>sab. size_at_build_' six_index = Some sab
                  \<and> less_d exact_collab (mul_d exact_collab (lit_d exact_collab (of_nat sab)) 2)
                       (lit_d exact_collab (of_nat (size_' six_index + length [[57::real]])))))"
    by (simp add: exact_ops six_index_def six_fresh_def)
  from C5_inner_radius_nondecreasing [OF a r t n] show ?thesis .
qed

text \<open>
  Counterexample to C5 as stated: three points \<open>0, 0, 10\<close> with branching \<open>5\<close> make one
  leaf of radius \<open>400/9\<close>; adding the point \<open>10\<close> (no rebuild, threshold \<open>2\<close>) moves the
  pivot to \<open>5\<close> and the radius of that same node down to \<open>25\<close>.
\<close>

theorem C5_leaf_radius_shrinks:
  "rbind (rbind (KMeansIndex_ctor exact_collab [[0], [0], [10]] 1 [''branching'' \<mapsto> PInt 5] [])
                (buildIndex 1 exact_collab))
         (\<lambda>ix. rbind (addPoints 1 exact_collab ix [[10]] 1 2)
                  (\<lambda>ix'. Ok (size_at_build_' ix', root_' ix, root_' ix')))
     = Ok (Some 3,
           Some (KMeansNode [10 / 3] (400 / 9) (200 / 9) 3 [] [0, 1, 2] 0),
           Some (KMeansNode [5] 25 25 4 [] [0, 1, 2, 3] 0))
   \<and> (25::real) < 400 / 9"
  by code_simp

subsection \<open>The pruning test of the exact search\<close>

text \<open>
  The Cauchy-Schwarz inequality over a list of indices, and with it the soundness of the
  test \<open>val > 0 \<and> val * val - 4 * r * w > 0\<close> for \<open>val = b - r - w\<close>: a point \<open>x\<close> within
  the squared distance \<open>r\<close> of the pivot is farther from the query than \<open>w\<close>.
\<close>

lemma cauchy_schwarz_list:
  fixes u v :: "'a \<Rightarrow> real"
  shows "(sum_list (map (\<lambda>k. u k * v k) ks))\<^sup>2
           \<le> sum_list (map (\<lambda>k. u k * u k) ks) * sum_list (map (\<lambda>k. v k * v k) ks)
         \<and> 0 \<le> sum_list (map (\<lambda>k. u k * u k) ks) \<and> 0 \<le> sum_list (map (\<lambda>k. v k * v k) ks)"
proof (induction ks)
  case Nil
  then show ?case by simp
next
  case (Cons k ks)
  define A where "A = sum_list (map (\<lambda>k. u k * u k) ks)"
  define B where "B = sum_list (map (\<lambda>k. v k * v k) ks)"
  define C where "C = sum_list (map (\<lambda>k. u k * v k) ks)"
  define x where "x = u k"
  define y where "y = v k"
  from Cons.IH have c: "C\<^sup>2 \<le> A * B" and a: "0 \<le> A" and b: "0 \<le> B"
    by (simp_all add: A_def B_def C_def)
  have p: "0 \<le> A * y\<^sup>2 + B * x\<^sup>2" using a b by simp
  have "(2 * C * x * y)\<^sup>2 = 4 * C\<^sup>2 * (x\<^sup>2 * y\<^sup>2)" by (simp add: power2_eq_square)
  also have "\<dots> \<le> 4 * (A * B) * (x\<^sup>2 * y\<^sup>2)"
    using c by (intro mult_right_mono mult_left_mono) simp_all
  also have "\<dots> \<le> (A * y\<^sup>2 + B * x\<^sup>2)\<^sup>2"
  proof -
    have "0 \<le> (A * y\<^sup>2 - B * x\<^sup>2)\<^sup>2" by simp
    also have "\<dots> = (A * y\<^sup>2 + B * x\<^sup>2)\<^sup>2 - 4 * (A * B) * (x\<^sup>2 * y\<^sup>2)"
      by (simp add: power2_eq_square algebra_simps)
    finally show ?thesis by simp
  qed
  finally have "2 * C * x * y \<le> A * y\<^sup>2 + B * x\<^sup>2" using p by (rule power2_le_imp_le)
  then have "(C + x * y)\<^sup>2 \<le> (A + x * x) * (B + y * y)"
    by (simp add: power2_eq_square algebra_simps) (use c in \<open>simp add: power2_eq_square algebra_simps\<close>)
  moreover have "0 \<le> A + x * x" "0 \<le> B + y * y" using a b by simp_all
  ultimately show ?case
    by (simp add: A_def B_def C_def x_def y_def add.commute)
qed

lemma sq_euclid_commute: "sq_euclid a b n = sq_euclid b a n"
  unfolding sq_euclid_def by (rule arg_cong [where f = sum_list], rule map_cong) (simp_all add: algebra_simps)

lemma sq_euclid_nonneg: "0 \<le> sq_euclid a b n"
  unfolding sq_euclid_def by (rule sum_list_nonneg) auto

lemma sq_euclid_triangle:
  "\<exists>C. sq_euclid q p n = sq_euclid x p n + sq_euclid x q n + 2 * C
       \<and> C\<^sup>2 \<le> sq_euclid x q n * sq_euclid x p n"
proof -
  define u where "u k = x ! k - q ! k" for k
  define v where "v k = p ! k - x ! k" for k
  define C where "C = sum_list (map (\<lambda>k. u k * v k) [0..<n])"
  have d: "sq_euclid x q n = sum_list (map (\<lambda>k. u k * u k) [0..<n])"
    by (simp add: sq_euclid_def u_def)
  have s: "sq_euclid x p n = sum_list (map (\<lambda>k. v k * v k) [0..<n])"
    unfolding sq_euclid_def v_def
    by (rule arg_cong [where f = sum_list], rule map_cong) (simp_all add: algebra_simps)
  have "sq_euclid q p n = sum_list (map (\<lambda>k. v k * v k + u k * u k + 2 * (u k * v k)) [0..<n])"
    unfolding sq_euclid_def u_def v_def
    by (rule arg_cong [where f = sum_list], rule map_cong) (simp_all add: algebra_simps)
  also have "\<dots> = sq_euclid x p n + sq_euclid x q n + 2 * C"
    by (simp add: d s C_def sum_list_addf sum_list_const_mult)
  finally have e: "sq_euclid q p n = sq_euclid x p n + sq_euclid x q n + 2 * C" .
  from cauchy_schwarz_list [of u v "[0..<n]"] have "C\<^sup>2 \<le> sq_euclid x q n * sq_euclid x p n"
    by (simp add: d s C_def)
  with e show ?thesis by blast
qed

lemma prune_sound:
  fixes r w :: real
  assumes "0 < sq_euclid q p n - r - w"
    and "0 < (sq_euclid q p n - r - w) * (sq_euclid q p n - r - w) - 4 * r * w"
    and "sq_euclid x p n \<le> r"
  shows "w < sq_euclid x q n"
proof (rule ccontr)
  assume "\<not> w < sq_euclid x q n"
  then have dw: "sq_euclid x q n \<le> w" by simp
  define d where "d = sq_euclid x q n"
  define s where "s = sq_euclid x p n"
  from sq_euclid_triangle [of q p n x] obtain C where
    e: "sq_euclid q p n = s + d + 2 * C" and c: "C\<^sup>2 \<le> d * s" by (auto simp: d_def s_def)
  have d0: "0 \<le> d" and s0: "0 \<le> s" by (simp_all add: d_def s_def sq_euclid_nonneg)
  define val where "val = sq_euclid q p n - r - w"
  have v0: "0 < val" using assms(1) by (simp add: val_def)
  have "val \<le> 2 * C" using e dw assms(3) by (simp add: val_def d_def s_def)
  with v0 have "val\<^sup>2 \<le> (2 * C)\<^sup>2" by (intro power_mono) simp_all
  also have "\<dots> = 4 * C\<^sup>2" by simp
  also have "\<dots> \<le> 4 * (d * s)" using c by simp
  also have "d * s \<le> w * r" using dw assms(3) d0 s0 by (intro mult_mono) (simp_all add: d_def s_def)
  finally have "val\<^sup>2 \<le> 4 * r * w" by (simp add: mult_ac)
  with assms(2) show False by (simp add: val_def power2_eq_square)
qed

subsection \<open>The result set keeps the least distances\<close>

lemma knn_insert_mset:
  "mset (map fst (knn_insert p st)) = add_mset (fst p) (mset (map fst st))"
  by (induction st) simp_all

lemma knn_insert_set: "set (knn_insert p st) = insert p (set st)"
  by (induction st) auto

lemma knn_insert_sorted:
  "sorted (map fst st) \<Longrightarrow> sorted (map fst (knn_insert p st))"
  by (induction st) (auto simp: knn_insert_set)

lemma knn_insert_fst:
  assumes "sorted (map fst st)"
  shows "map fst (knn_insert (d, i) st) = insort d (map fst st)"
proof -
  have "sort (d # map fst st) = map fst (knn_insert (d, i) st)"
    using knn_insert_mset [of "(d, i)" st] knn_insert_sorted [OF assms, of "(d, i)"]
    by (intro properties_for_sort) simp_all
  moreover have "sort (d # map fst st) = insort d (map fst st)"
    using assms by (simp add: sort_key_id_if_sorted)
  ultimately show ?thesis by simp
qed

lemma take_insort:
  fixes d :: "'a::linorder"
  shows "take k (insort d (take k xs)) = take k (insort d xs)"
proof (induction xs arbitrary: k)
  case Nil
  then show ?case by simp
next
  case (Cons x xs)
  show ?case
  proof (cases k)
    case 0
    then show ?thesis by simp
  next
    case (Suc k')
    have "take k' (x # take k' xs) = take k' (x # xs)"
      by (cases k') (simp_all add: min_def)
    with Cons.IH [of k'] Suc show ?thesis by simp
  qed
qed

lemma take_insort_skip:
  fixes d :: "'a::linorder"
  assumes "sorted xs" and "0 < k" and "k \<le> length xs" and "last (take k xs) < d"
  shows "take k (insort d xs) = take k xs"
  using assms
proof (induction xs arbitrary: k)
  case Nil
  then show ?case by simp
next
  case (Cons x xs)
  from Cons.prems(2) obtain k' where k: "k = Suc k'" by (cases k) auto
  show ?case
  proof (cases k')
    case 0
    with Cons.prems k show ?thesis by auto
  next
    case (Suc j)
    with Cons.prems k have l: "last (take k' xs) < d" and kl: "k' \<le> length xs" "0 < k'"
      by (auto split: if_splits)
    from kl have "take k' xs \<noteq> []" by auto
    then have "last (take k' xs) \<in> set xs" by (meson in_set_takeD last_in_set)
    with Cons.prems(1) have "x \<le> last (take k' xs)" by simp
    with l have "\<not> d \<le> x" by simp
    moreover from Cons.prems(1) have "sorted xs" by simp
    ultimately show ?thesis using Cons.IH [OF _ kl(2) kl(1) l] k by simp
  qed
qed

lemma knn_state_sorted: "knn_state k st M \<Longrightarrow> sorted (map fst st)"
  by (simp add: knn_state_def sorted_wrt_take)

lemma knn_add:
  assumes "knn_state k st M"
  shows "knn_state k (addPoint (KNNResultSet k) d i st) (add_mset d M)"
proof -
  have "map fst (take k (knn_insert (d, i) st)) = take k (insort d (map fst st))"
    by (simp add: take_map [symmetric] knn_insert_fst [OF knn_state_sorted [OF assms]])
  also have "\<dots> = take k (insort d (sorted_list_of_multiset M))"
    using assms by (simp add: knn_state_def take_insort)
  finally show ?thesis by (simp add: knn_state_def KNNResultSet_def)
qed

lemma knn_skip:
  assumes "knn_state k st M" and "worstDist (KNNResultSet k) st < d" and "d \<le> FLT_MAX"
  shows "knn_state k st (add_mset d M)"
proof -
  let ?xs = "sorted_list_of_multiset M"
  from assms(1) have e: "map fst st = take k ?xs" by (simp add: knn_state_def)
  from assms(2,3) have f: "\<not> (length st < k \<or> st = [])" and w: "fst (last st) < d"
    by (auto simp: KNNResultSet_def split: if_splits)
  from e have "length st = min k (length ?xs)" by (metis length_map length_take min.commute)
  with f have k: "0 < k" "k \<le> length ?xs" by (auto simp: min_def split: if_splits)
  from f have "fst (last st) = last (map fst st)" by (simp add: last_map)
  with w e have "last (take k ?xs) < d" by simp
  from take_insort_skip [OF _ k this] e show ?thesis by (simp add: knn_state_def)
qed

lemma knn_skip_all:
  assumes "knn_state k st M" and "\<And>d. d \<in> set ds \<Longrightarrow> worstDist (KNNResultSet k) st < d \<and> d \<le> FLT_MAX"
  shows "knn_state k st (M + mset ds)"
  using assms
proof (induction ds arbitrary: M)
  case Nil
  then show ?case by simp
next
  case (Cons d ds)
  from Cons.prems(2) [of d] Cons.prems(1) have "knn_state k st (add_mset d M)"
    by (intro knn_skip) simp_all
  from Cons.IH [OF this] Cons.prems(2) show ?case by simp
qed

lemma knn_scan:
  assumes "knn_state k st M"
  shows "knn_state k (foldl (\<lambda>res i. addPoint (KNNResultSet k) (g i) i res) st ids) (M + mset (map g ids))"
  using assms
proof (induction ids arbitrary: st M)
  case Nil
  then show ?case by simp
next
  case (Cons i ids)
  from Cons.IH [OF knn_add [OF Cons.prems, of "g i" i]] show ?case by simp
qed

subsection \<open>The exact search accounts for every point\<close>

lemma foldM_accum:
  fixes M :: "'m multiset"
  assumes "foldM f xs s = Ok t" and "I s M"
    and "\<And>u x v N. x \<in> set xs \<Longrightarrow> I u N \<Longrightarrow> f u x = Ok v \<Longrightarrow> I v (N + g x)"
  shows "I t (M + sum_list (map g xs))"
  using assms
proof (induction xs arbitrary: s M)
  case Nil
  then show ?case by simp
next
  case (Cons x xs)
  from Cons.prems(1) obtain v where v: "f s x = Ok v" and r: "foldM f xs v = Ok t"
    by (auto simp: rbind_eq_Ok)
  from Cons.prems(3) [OF _ Cons.prems(2) v] have "I v (M + g x)" by simp
  from Cons.IH [OF r this] Cons.prems(3) show ?case by (simp add: add.assoc)
qed

lemma ordering_step_mset:
  "mset (snd (foldl (ordering_step E vl node q) s js)) = mset (snd s) + mset js"
proof (induction js arbitrary: s)
  case Nil
  then show ?case by simp
next
  case (Cons j js)
  obtain dd si where s: "s = (dd, si)" by (cases s)
  have "mset (take n si @ j # drop n si) = add_mset j (mset si)" for n
    by (metis append_take_drop_id mset.simps(2) mset_append union_mset_add_mset_right)
  then have "mset (snd (ordering_step E vl node q s j)) = add_mset j (mset si)"
    unfolding s ordering_step_def Let_def by simp
  with Cons.IH [of "ordering_step E vl node q s j"] s show ?case by simp
qed

lemma getCenterOrdering_mset: "mset (getCenterOrdering E vl node q B) = mset [0..<B]"
  unfolding getCenterOrdering_def ordering_step_mset by simp

lemma sum_list_perm:
  fixes g :: "'a \<Rightarrow> 'm multiset"
  assumes "mset xs = mset ys"
  shows "sum_list (map g xs) = sum_list (map g ys)"
proof -
  have "sum_list (map g xs) = sum_mset (image_mset g (mset xs))"
    by (metis mset_map sum_mset_sum_list)
  also have "\<dots> = sum_list (map g ys)" unfolding assms by (metis mset_map sum_mset_sum_list)
  finally show ?thesis .
qed

lemma mset_leaf_dists:
  "mset (map g (concat (map leaf_ids cs))) = sum_list (map (\<lambda>i. mset (map g (leaf_ids (cs ! i)))) [0..<length cs])"
proof -
  have "map (\<lambda>i. mset (map g (leaf_ids (cs ! i)))) [0..<length cs] = map (\<lambda>c. mset (map g (leaf_ids c))) cs"
    by (rule nth_equalityI) simp_all
  moreover have "mset (map g (concat (map leaf_ids cs))) = sum_list (map (\<lambda>c. mset (map g (leaf_ids c))) cs)"
    by (induction cs) simp_all
  ultimately show ?thesis by simp
qed


lemma tree_ok_leaf:
  "tree_ok B D node \<Longrightarrow> childs node = [] \<Longrightarrow>
     nat (node_size node) = length (indices node) \<and> leaf_ids node = indices node"
  by (cases node) simp

lemma tree_ok_inner:
  "tree_ok B D node \<Longrightarrow> childs node \<noteq> [] \<Longrightarrow>
     length (childs node) = B \<and> list_all (tree_ok B D) (childs node)
     \<and> leaf_ids node = concat (map leaf_ids (childs node))"
  by (cases node) simp

lemma radius_ok_node:
  "radius_ok ix node \<Longrightarrow>
     list_all (\<lambda>i. point_dist ix (pivot node) i \<le> radius node) (leaf_ids node)
     \<and> list_all (radius_ok ix) (childs node)"
  by (cases node) simp

lemma too_far_exact:
  "too_far exact_collab R vl node st q \<longleftrightarrow>
     0 < sq_euclid q (pivot node) vl - radius node - worstDist R st
     \<and> 0 < (sq_euclid q (pivot node) vl - radius node - worstDist R st)
             * (sq_euclid q (pivot node) vl - radius node - worstDist R st)
           - 4 * radius node * worstDist R st"
  by (simp add: too_far_def Let_def exact_ops)

lemma findExactNN_knn:
  "findExactNN E R ix node st q = Ok st' \<Longrightarrow> E = exact_collab \<Longrightarrow> R = KNNResultSet k
   \<Longrightarrow> tree_ok (nat (branching_' ix)) D node \<Longrightarrow> radius_ok ix node
   \<Longrightarrow> list_all (\<lambda>i. point_dist ix q i \<le> FLT_MAX) (leaf_ids node)
   \<Longrightarrow> knn_state k st M
   \<Longrightarrow> knn_state k st' (M + mset (map (point_dist ix q) (leaf_ids node)))"
proof (induction E R ix node st q arbitrary: st' M rule: findExactNN.induct)
  case (1 E R ix node st q)
  note run = "1.prems"(1) and E = "1.prems"(2) and R = "1.prems"(3) and t = "1.prems"(4)
    and rok = "1.prems"(5) and fm = "1.prems"(6) and inv = "1.prems"(7)
  show ?case
  proof (cases "too_far E R (veclen_' ix) node st q")
    case True
    with run have e: "st' = st" by (subst (asm) findExactNN.simps) simp
    have "worstDist (KNNResultSet k) st < d \<and> d \<le> FLT_MAX"
      if "d \<in> set (map (point_dist ix q) (leaf_ids node))" for d
    proof -
      from that obtain i where i: "i \<in> set (leaf_ids node)" "d = point_dist ix q i" by auto
      from radius_ok_node [OF rok] i
      have "sq_euclid (row (dataset_' ix) i) (pivot node) (veclen_' ix) \<le> radius node"
        by (simp add: list_all_iff point_dist_def)
      with True [unfolded E R too_far_exact]
      have "worstDist (KNNResultSet k) st < sq_euclid (row (dataset_' ix) i) q (veclen_' ix)"
        by (intro prune_sound [of q "pivot node" "veclen_' ix" "radius node"]) simp_all
      with fm i show ?thesis by (simp add: list_all_iff point_dist_def)
    qed
    from knn_skip_all [OF inv this, of "map (point_dist ix q) (leaf_ids node)"] e
    show ?thesis by blast
  next
    case far: False
    show ?thesis
    proof (cases "childs node = []")
      case True
      from tree_ok_leaf [OF t True]
      have l: "nat (node_size node) = length (indices node)" "leaf_ids node = indices node" by simp_all
      from run far True have "scan_leaf E R ix node st q = Ok st'"
        by (subst (asm) findExactNN.simps) simp
      with l have "st' = foldl (\<lambda>res index. addPoint (KNNResultSet k) (point_dist ix q index) index res)
                              st (indices node)"
        unfolding scan_leaf_def E R by (simp add: Let_def exact_ops point_dist_def split: if_splits)
      with knn_scan [OF inv, of "point_dist ix q" "indices node"] l show ?thesis by simp
    next
      case False
      let ?B = "nat (branching_' ix)"
      let ?ord = "getCenterOrdering E (veclen_' ix) node q ?B"
      let ?g = "\<lambda>i. mset (map (point_dist ix q) (leaf_ids (childs node ! i)))"
      from tree_ok_inner [OF t False]
      have n: "length (childs node) = ?B" "list_all (tree_ok ?B D) (childs node)"
        "leaf_ids node = concat (map leaf_ids (childs node))" by simp_all
      from run far False have br: "0 \<le> branching_' ix \<and> ?B \<le> length (childs node)"
        by (subst (asm) findExactNN.simps) (simp split: if_splits)
      with run far False
      have f: "foldM (\<lambda>res i. findExactNN E R ix (childs node ! i) res q) ?ord st = Ok st'"
        by (subst (asm) findExactNN.simps) simp
      have step: "knn_state k v (N + ?g i)"
        if "i \<in> set ?ord" "knn_state k u N" "findExactNN E R ix (childs node ! i) u q = Ok v"
        for u i v N
      proof -
        from that(1) have il: "i < length (childs node)" by (simp add: getCenterOrdering_set n(1))
        then have c: "childs node ! i \<in> set (childs node)" by simp
        with n(2) have ct: "tree_ok ?B D (childs node ! i)" by (simp add: list_all_iff)
        from radius_ok_node [OF rok] c have cr: "radius_ok ix (childs node ! i)"
          by (simp add: list_all_iff)
        from fm n(3) c have cf: "list_all (\<lambda>i. point_dist ix q i \<le> FLT_MAX) (leaf_ids (childs node ! i))"
          by (auto simp: list_all_iff)
        from br have nn: "\<not> \<not> (0 \<le> branching_' ix \<and> ?B \<le> length (childs node))" by simp
        from "1.IH" [OF far False nn that(1) that(3) E R ct cr cf that(2)] show ?thesis .
      qed
      from foldM_accum [where I = "knn_state k" and g = ?g, OF f inv step]
      have "knn_state k st' (M + sum_list (map ?g ?ord))" by simp
      also have "sum_list (map ?g ?ord) = sum_list (map ?g [0..<?B])"
        by (rule sum_list_perm) (rule getCenterOrdering_mset)
      also have "\<dots> = mset (map (point_dist ix q) (leaf_ids node))"
        unfolding n(3) mset_leaf_dists n(1) ..
      finally show ?thesis .
    qed
  qed
qed


lemma knn_add_set: "set (addPoint (KNNResultSet k) d i st) \<subseteq> insert (d, i) (set st)"
  by (auto simp: KNNResultSet_def knn_insert_set dest: in_set_takeD)

lemma knn_scan_pairs:
  assumes "\<forall>p\<in>set st. Q p" and "\<forall>i\<in>set ids. Q (g i, i)"
  shows "\<forall>p\<in>set (foldl (\<lambda>res i. addPoint (KNNResultSet k) (g i) i res) st ids). Q p"
  using assms
proof (induction ids arbitrary: st)
  case Nil
  then show ?case by simp
next
  case (Cons i ids)
  have "\<forall>p\<in>set (addPoint (KNNResultSet k) (g i) i st). Q p"
    using knn_add_set [of k "g i" i st] Cons.prems by auto
  from Cons.IH [OF this] Cons.prems(2) show ?case by simp
qed

lemma leaf_ids_leaf: "childs node = [] \<Longrightarrow> leaf_ids node = indices node"
  by (cases node) simp

lemma leaf_ids_child:
  assumes "childs node \<noteq> []" and "i < length (childs node)"
  shows "set (leaf_ids (childs node ! i)) \<subseteq> set (leaf_ids node)"
proof (cases node)
  case (KMeansNode p r v s cs ids l)
  with assms have "cs \<noteq> []" and "cs ! i \<in> set cs" by simp_all
  with KMeansNode show ?thesis by auto
qed

lemma findExactNN_pairs:
  "findExactNN E R ix node st q = Ok st' \<Longrightarrow> E = exact_collab \<Longrightarrow> R = KNNResultSet k
   \<Longrightarrow> set (leaf_ids node) \<subseteq> S
   \<Longrightarrow> \<forall>p\<in>set st. fst p = point_dist ix q (snd p) \<and> snd p \<in> S
   \<Longrightarrow> \<forall>p\<in>set st'. fst p = point_dist ix q (snd p) \<and> snd p \<in> S"
proof (induction E R ix node st q arbitrary: st' rule: findExactNN.induct)
  case (1 E R ix node st q)
  note run = "1.prems"(1) and E = "1.prems"(2) and R = "1.prems"(3) and sub = "1.prems"(4)
    and inv = "1.prems"(5)
  let ?Q = "\<lambda>p. fst p = point_dist ix q (snd p) \<and> snd p \<in> S"
  show ?case
  proof (cases "too_far E R (veclen_' ix) node st q")
    case True
    with run have "st' = st" by (subst (asm) findExactNN.simps) simp
    with inv show ?thesis by simp
  next
    case far: False
    show ?thesis
    proof (cases "childs node = []")
      case True
      let ?ids = "take (nat (node_size node)) (indices node)"
      from run far True have "scan_leaf E R ix node st q = Ok st'"
        by (subst (asm) findExactNN.simps) simp
      then have e: "st' = foldl (\<lambda>res index. addPoint (KNNResultSet k) (point_dist ix q index) index res)
                              st ?ids"
        unfolding scan_leaf_def E R by (simp add: Let_def exact_ops point_dist_def split: if_splits)
      have "\<forall>i\<in>set ?ids. ?Q (point_dist ix q i, i)"
        using sub leaf_ids_leaf [OF True] by (auto dest: in_set_takeD)
      from knn_scan_pairs [where Q = ?Q, OF inv this] e show ?thesis by simp
    next
      case False
      let ?B = "nat (branching_' ix)"
      let ?ord = "getCenterOrdering E (veclen_' ix) node q ?B"
      from run far False have br: "0 \<le> branching_' ix \<and> ?B \<le> length (childs node)"
        by (subst (asm) findExactNN.simps) (simp split: if_splits)
      with run far False
      have f: "foldM (\<lambda>res i. findExactNN E R ix (childs node ! i) res q) ?ord st = Ok st'"
        by (subst (asm) findExactNN.simps) simp
      have step: "\<forall>p\<in>set v. ?Q p"
        if "\<forall>p\<in>set u. ?Q p" "findExactNN E R ix (childs node ! i) u q = Ok v" "i \<in> set ?ord"
        for u i v
      proof -
        from that(3) br have il: "i < length (childs node)" by (simp add: getCenterOrdering_set)
        from leaf_ids_child [OF False il] sub have cs: "set (leaf_ids (childs node ! i)) \<subseteq> S" by auto
        from br have nn: "\<not> \<not> (0 \<le> branching_' ix \<and> ?B \<le> length (childs node))" by simp
        from "1.IH" [OF far False nn that(3) that(2) E R cs that(1)] show ?thesis .
      qed
      from foldM_accum [where I = "\<lambda>u (N :: nat multiset). \<forall>p\<in>set u. ?Q p" and g = "\<lambda>i. {#}"
                          and M = "{#}", OF f inv]
        step
      show ?thesis by blast
    qed
  qed
qed

lemma buildIndex_frame_size:
  "buildIndex fuel E ix = Ok ix' \<Longrightarrow> veclen_' ix' = veclen_' ix \<and> size_' ix' = size_' ix"
  unfolding buildIndex_def by (auto simp: rbind_eq_Ok Let_def split: if_splits)

lemma linear_scan_knn:
  "knn_state k (linear_scan exact_collab (KNNResultSet k) ix [] q)
     (mset (map (point_dist ix q) (map int [0..<size_' ix])))"
proof -
  have "knn_state k [] {#}" by (simp add: knn_state_def)
  from knn_scan [OF this, of "point_dist ix q" "map int [0..<size_' ix]"]
  show ?thesis by (simp add: linear_scan_def point_dist_def exact_ops)
qed

text \<open>
  The pruning test itself is sound, in exact arithmetic. On an index just built whose
  tree has every radius no less than the distance of the node's pivot to the points
  below the node, the exact search with a k-nearest-neighbour result set returns, and
  the distances it returns are those a linear scan returns: the \<open>k\<close> least of the \<open>N\<close>
  points. Every pair returned is the id of a dataset point with its distance to the
  query. The distances are taken to be at most \<open>FLT_MAX\<close>, the worst distance of a
  result set that is not full.
\<close>

theorem exact_search_equals_linear_scan:
  assumes "buildIndex fuel exact_collab ix0 = Ok ix"
    and "size_' ix0 = length (dataset_' ix0)"
    and "root_' ix = Some rnode"
    and "radius_ok ix rnode"
    and "list_all (\<lambda>p. sq_euclid p q (veclen_' ix0) \<le> FLT_MAX) (dataset_' ix0)"
  shows "\<exists>res. findNeighbors exact_collab (KNNResultSet k) ix [] q FLANN_CHECKS_UNLIMITED = Ok res
           \<and> map fst res = map fst (linear_scan exact_collab (KNNResultSet k) ix [] q)
           \<and> (\<forall>p\<in>set res. 0 \<le> snd p \<and> snd p < int (size_' ix)
                 \<and> fst p = sq_euclid (row (dataset_' ix) (snd p)) q (veclen_' ix))"
proof -
  from buildIndex_tree [OF assms(1)] assms(3)
  have t: "tree_ok (nat (branching_' ix0)) (degenerate exact_collab ix0 (branching_' ix0)) rnode"
    and m: "mset (leaf_ids rnode) = mset (map int [0..<size_' ix0])" by auto
  from buildIndex_frame [OF assms(1)] buildIndex_frame_size [OF assms(1)]
  have f: "dataset_' ix = dataset_' ix0" "branching_' ix = branching_' ix0" "2 \<le> branching_' ix0"
    "veclen_' ix = veclen_' ix0" "size_' ix = size_' ix0"
    by simp_all
  have ids: "set (leaf_ids rnode) = int ` {0..<size_' ix0}" using m by (metis set_map set_mset_mset set_upt)
  then have "list_all (row_ok (dataset_' ix)) (leaf_ids rnode)"
    using assms(2) f(1) by (auto simp: list_all_iff row_ok_def)
  from tree_ok_searchable [OF t _ _ this] f have "searchable ix rnode" by simp
  from findNeighbors_searchable [OF assms(3) this, of exact_collab "KNNResultSet k" "[]" q FLANN_CHECKS_UNLIMITED]
  obtain res where r: "findNeighbors exact_collab (KNNResultSet k) ix [] q FLANN_CHECKS_UNLIMITED = Ok res"
    by blast
  with assms(3) have e: "findExactNN exact_collab (KNNResultSet k) ix rnode [] q = Ok res"
    by (simp add: findNeighbors_def)
  have fm: "list_all (\<lambda>i. point_dist ix q i \<le> FLT_MAX) (leaf_ids rnode)"
    using assms(2,5) ids f by (auto simp: list_all_iff point_dist_def row_def)
  have k0: "knn_state k [] {#}" by (simp add: knn_state_def)
  from t f have t': "tree_ok (nat (branching_' ix)) (degenerate exact_collab ix0 (branching_' ix0)) rnode"
    by simp
  from findExactNN_knn [OF e refl refl t' assms(4) fm k0]
  have "knn_state k res (mset (map (point_dist ix q) (leaf_ids rnode)))" by simp
  also have "mset (map (point_dist ix q) (leaf_ids rnode))
               = mset (map (point_dist ix q) (map int [0..<size_' ix]))"
    using m f(5) by (metis mset_map)
  finally have "map fst res = map fst (linear_scan exact_collab (KNNResultSet k) ix [] q)"
    using linear_scan_knn [of k ix q] by (simp add: knn_state_def)
  moreover
  have "\<forall>p\<in>set ([] :: (real \<times> int) list). fst p = point_dist ix q (snd p) \<and> snd p \<in> set (leaf_ids rnode)"
    by simp
  from findExactNN_pairs [OF e refl refl subset_refl this]
  have "\<forall>p\<in>set res. 0 \<le> snd p \<and> snd p < int (size_' ix)
          \<and> fst p = sq_euclid (row (dataset_' ix) (snd p)) q (veclen_' ix)"
    using ids f(5) by (auto simp: point_dist_def)
  ultimately show ?thesis using r by blast
qed

text \<open>
  The index built over the six points with the default iteration cap has such a tree:
  the two nearest neighbours of \<open>100\<close> are found.
\<close>

theorem exact_search_on_converged_build:
  "\<exists>res. findNeighbors exact_collab (KNNResultSet 2) eleven_index [] [100] FLANN_CHECKS_UNLIMITED = Ok res
         \<and> map fst res = map fst (linear_scan exact_collab (KNNResultSet 2) eleven_index [] [100])"
proof -
  have b: "buildIndex 3 exact_collab eleven_fresh = Ok eleven_index" by code_simp
  have s: "size_' eleven_fresh = length (dataset_' eleven_fresh)"
    by (simp add: eleven_fresh_def six_fresh_def)
  have r: "root_' eleven_index = Some eleven_tree" by (simp add: eleven_index_def)
  have k: "radius_ok eleven_index eleven_tree" by code_simp
  have m: "list_all (\<lambda>p. sq_euclid p [100] (veclen_' eleven_fresh) \<le> FLT_MAX) (dataset_' eleven_fresh)"
    by code_simp
  from exact_search_equals_linear_scan [OF b s r k m, of 2] show ?thesis by blast
qed

text \<open>
  C3. The exact search is not exact on the index that \<open>buildIndex\<close> makes of the six
  points \<open>0, 10, 100, 54, 56, 56\<close> with \<open>branching = 3\<close>, \<open>iterations = 1\<close> and the seeds
  \<open>0, 10, 100\<close>. In the only iteration the cluster of the center \<open>32\<close> becomes empty and
  the recovery of lines 785-804 moves the point \<open>100\<close> (id \<open>2\<close>) into it from the third
  cluster, without the update of \<open>radiuses\<close> that the assignment passes of lines 731-733
  and 773-775 make: the child with pivot \<open>32\<close> holds the point \<open>100\<close> under the radius
  \<open>0\<close>. For the query \<open>100\<close> the exact search first scans the third child, holds the
  distance \<open>1936\<close> of id \<open>4\<close>, and then skips the child that holds the point \<open>100\<close>
  itself, since \<open>4624 - 0 - 1936 > 0\<close>. The linear scan finds that point at distance
  \<open>0\<close>.
\<close>

theorem C3_exact_search_misses_nearest:
  "rbind (KMeansIndex_ctor exact_collab [[0], [10], [100], [54], [56], [56]] 1
            [''branching'' \<mapsto> PInt 3, ''iterations'' \<mapsto> PInt 1] [])
     (\<lambda>ix0. rbind (buildIndex 3 exact_collab ix0)
     (\<lambda>ix. rbind (findNeighbors exact_collab (KNNResultSet 1) ix [] [100] FLANN_CHECKS_UNLIMITED)
     (\<lambda>res. Ok (root_' ix, res, linear_scan exact_collab (KNNResultSet 1) ix [] [100]))))
   = Ok (Some (KMeansNode [46] 2916 (3296 / 3) 6
                 [KMeansNode [0] 100 50 2 [] [0, 1] 1,
                  KMeansNode [32] 0 4624 1 [] [2] 1,
                  KMeansNode [212 / 3] (7744 / 9) 236 3 [] [3, 4, 5] 1]
                 [] 0),
         [(1936, 4)], [(0, 2)])"
  by code_simp

end
